theory Spec2Isabelle
  imports Complex_Main "HOL-Library.Signed_Division" "HOL-Library.Log_Nat"
begin

section \<open>Single-precision arithmetic\<close>

text \<open>
  The sketch computes in C \<^verbatim>\<open>float\<close>: IEEE 754 binary32, every operation rounded
  once, to nearest, ties to even. A value is a rational number, an infinity or a NaN.
  The two zeros are one value here: the sketch never divides by a zero and reads a sign
  only through a comparison, where the zeros are equal.
\<close>

datatype f32 = Fin rat | PInf | NInf | NaN

text \<open>
  The binary exponent of a positive rational, not below the exponent of the smallest
  normal number: the subnormal numbers share the spacing of the smallest normal ones.
\<close>

definition expo :: "rat \<Rightarrow> int" where
  "expo a = (let (n, d) = quotient_of a; k = bitlen n - bitlen d in
     max (- 126) (if 2 powi k \<le> a then k else k - 1))"

text \<open>Rounding a rational to an integer, ties to even.\<close>

definition rhe :: "rat \<Rightarrow> int" where
  "rhe x = (let f = \<lfloor>x\<rfloor>; d = x - of_int f in
     if d < 1 / 2 then f else if 1 / 2 < d then f + 1 else if even f then f else f + 1)"

text \<open>
  Rounding to binary32: 24 significant bits, so the spacing at exponent \<open>e\<close> is
  \<open>2 powi (e - 23)\<close>; a result of magnitude \<open>2 ^ 128\<close> or more overflows.
\<close>

definition rnd :: "rat \<Rightarrow> f32" where
  "rnd x = (if x = 0 then Fin 0 else
     let a = \<bar>x\<bar>; u = 2 powi (expo a - 23); r = of_int (rhe (a / u)) * u in
     if 2 ^ 128 \<le> r then (if x < 0 then NInf else PInf)
     else Fin (if x < 0 then - r else r))"

text \<open>
  The magnitude of the rounded value of a positive number, before the overflow test;
  it serves the proofs about \<open>rnd\<close>.
\<close>

definition rmag :: "rat \<Rightarrow> rat" where
  "rmag x = of_int (rhe (x / 2 powi (expo x - 23))) * 2 powi (expo x - 23)"

fun fneg :: "f32 \<Rightarrow> f32" where
  "fneg (Fin a) = Fin (- a)"
| "fneg PInf = NInf"
| "fneg NInf = PInf"
| "fneg NaN = NaN"

fun fadd :: "f32 \<Rightarrow> f32 \<Rightarrow> f32" where
  "fadd NaN _ = NaN"
| "fadd _ NaN = NaN"
| "fadd (Fin a) (Fin b) = rnd (a + b)"
| "fadd PInf NInf = NaN"
| "fadd NInf PInf = NaN"
| "fadd PInf _ = PInf"
| "fadd NInf _ = NInf"
| "fadd (Fin a) PInf = PInf"
| "fadd (Fin a) NInf = NInf"

definition fsub :: "f32 \<Rightarrow> f32 \<Rightarrow> f32" where
  "fsub x y = fadd x (fneg y)"

text \<open>The sign of a value, for the products and quotients of infinities.\<close>

fun fsign :: "f32 \<Rightarrow> int" where
  "fsign (Fin a) = (if a < 0 then - 1 else if 0 < a then 1 else 0)"
| "fsign PInf = 1"
| "fsign NInf = - 1"
| "fsign NaN = 0"

definition finf :: "int \<Rightarrow> f32" where
  "finf s = (if s < 0 then NInf else PInf)"

fun fmul :: "f32 \<Rightarrow> f32 \<Rightarrow> f32" where
  "fmul NaN _ = NaN"
| "fmul _ NaN = NaN"
| "fmul (Fin a) (Fin b) = rnd (a * b)"
| "fmul x y = (if fsign x = 0 \<or> fsign y = 0 then NaN else finf (fsign x * fsign y))"

text \<open>
  A nonzero finite value divided by a zero is an infinity; its sign is that of the
  dividend here, the zero taken as positive.
\<close>

fun fdiv :: "f32 \<Rightarrow> f32 \<Rightarrow> f32" where
  "fdiv NaN _ = NaN"
| "fdiv _ NaN = NaN"
| "fdiv (Fin a) (Fin b) =
     (if b = 0 then (if a = 0 then NaN else finf (fsign (Fin a))) else rnd (a / b))"
| "fdiv (Fin a) _ = Fin 0"
| "fdiv x (Fin b) = finf (fsign x * (if b < 0 then - 1 else 1))"
| "fdiv _ _ = NaN"

fun flt :: "f32 \<Rightarrow> f32 \<Rightarrow> bool" where
  "flt NaN _ = False"
| "flt _ NaN = False"
| "flt (Fin a) (Fin b) = (a < b)"
| "flt _ NInf = False"
| "flt NInf _ = True"
| "flt PInf _ = False"
| "flt (Fin a) PInf = True"

fun fle :: "f32 \<Rightarrow> f32 \<Rightarrow> bool" where
  "fle NaN _ = False"
| "fle _ NaN = False"
| "fle (Fin a) (Fin b) = (a \<le> b)"
| "fle NInf _ = True"
| "fle _ PInf = True"
| "fle PInf _ = False"
| "fle (Fin a) NInf = False"

text \<open>\<^verbatim>\<open>a > b\<close> and \<^verbatim>\<open>a >= b\<close> are the comparisons above with the operands exchanged.\<close>

definition fgt :: "f32 \<Rightarrow> f32 \<Rightarrow> bool" where
  "fgt x y = flt y x"

definition fge :: "f32 \<Rightarrow> f32 \<Rightarrow> bool" where
  "fge x y = fle y x"

text \<open>The conversion of an \<^verbatim>\<open>int\<close> to \<^verbatim>\<open>float\<close>.\<close>

definition f32_of_int :: "int \<Rightarrow> f32" where
  "f32_of_int i = rnd (of_int i)"

text \<open>
  The cast \<^verbatim>\<open>(int)x\<close> truncates towards zero; it is undefined (\<open>None\<close>) for a NaN,
  an infinity and a value outside the 32-bit range.
\<close>

definition trunc_rat :: "rat \<Rightarrow> int" where
  "trunc_rat q = (if 0 \<le> q then \<lfloor>q\<rfloor> else \<lceil>q\<rceil>)"

fun int_of_f32 :: "f32 \<Rightarrow> int option" where
  "int_of_f32 (Fin q) =
     (let t = trunc_rat q in if - (2 ^ 31) \<le> t \<and> t < 2 ^ 31 then Some t else None)"
| "int_of_f32 _ = None"

text \<open>The values of the type that a \<^verbatim>\<open>float\<close> can hold: rounding does not change them.\<close>

definition is_f32 :: "f32 \<Rightarrow> bool" where
  "is_f32 v = (case v of Fin q \<Rightarrow> rnd q = Fin q | _ \<Rightarrow> True)"

section \<open>The C library\<close>

text \<open>
  \<^verbatim>\<open>powf\<close> and \<^verbatim>\<open>strtof\<close> belong to the C library, not to the sketch. The functions
  of the sketch that call them take them as parameters, and every general statement holds
  for each library. The closed examples need particular values; they use the two models
  of this section.
\<close>

subsection \<open>A value of \<^verbatim>\<open>powf\<close> for the closed examples\<close>

text \<open>
  C fixes \<^verbatim>\<open>pow(+1, y)\<close> as 1 for every \<open>y\<close> (C11, F.10.4.4). The closed examples
  below run the simulation with inflation 0, where \<^verbatim>\<open>powf\<close> is called at base 1 only;
  this function has the value C gives there and stands for nothing elsewhere. Every general
  theorem takes \<^verbatim>\<open>powf\<close> as a parameter.
\<close>

definition powf_unit_base :: "f32 \<Rightarrow> f32 \<Rightarrow> f32" where
  "powf_unit_base x y = (if x = Fin 1 then Fin 1 else NaN)"

subsection \<open>\<^verbatim>\<open>strtof\<close> as the C standard describes it\<close>

text \<open>
  C11, 7.22.1.3: white space is skipped; then comes an optional sign and the longest
  prefix that is a decimal number with an optional exponent, a hexadecimal number with an
  optional binary exponent, \<^verbatim>\<open>INF\<close> or \<^verbatim>\<open>INFINITY\<close>, or \<^verbatim>\<open>NAN\<close> with an optional
  parenthesised tag, letters in either case. The result is the value, rounded to the
  nearest \<^verbatim>\<open>float\<close>, and the number of characters consumed, which is 0 when there is
  no such prefix (the end pointer is then the start of the string).
\<close>

definition c_isspace :: "char \<Rightarrow> bool" where
  "c_isspace c = (c \<in> set [CHR '' '', CHR 0x09, CHR 0x0A, CHR 0x0B, CHR 0x0C, CHR 0x0D])"

definition c_isdigit :: "char \<Rightarrow> bool" where
  "c_isdigit c = (48 \<le> (of_char c :: nat) \<and> (of_char c :: nat) \<le> 57)"

definition c_tolower :: "char \<Rightarrow> char" where
  "c_tolower c =
     (if 65 \<le> (of_char c :: nat) \<and> (of_char c :: nat) \<le> 90
      then char_of (of_char c + 32 :: nat) else c)"

definition c_isxdigit :: "char \<Rightarrow> bool" where
  "c_isxdigit c =
     (c_isdigit c \<or> (97 \<le> (of_char (c_tolower c) :: nat) \<and> (of_char (c_tolower c) :: nat) \<le> 102))"

definition c_isnchar :: "char \<Rightarrow> bool" where
  "c_isnchar c =
     (c_isdigit c \<or> c = CHR ''_'' \<or>
      (97 \<le> (of_char (c_tolower c) :: nat) \<and> (of_char (c_tolower c) :: nat) \<le> 122))"

definition xdigit_of :: "char \<Rightarrow> nat" where
  "xdigit_of c = (if c_isdigit c then of_char c - 48 else of_char (c_tolower c) - 87)"

definition digits_value :: "nat \<Rightarrow> string \<Rightarrow> nat" where
  "digits_value base ds = foldl (\<lambda>a c. base * a + xdigit_of c) 0 ds"

definition sign_part :: "string \<Rightarrow> bool \<times> string" where
  "sign_part s =
     (case s of
        [] \<Rightarrow> (False, s)
      | c # t \<Rightarrow> if c = CHR ''-'' then (True, t) else if c = CHR ''+'' then (False, t) else (False, s))"

definition exponent_part :: "char \<Rightarrow> string \<Rightarrow> int \<times> string" where
  "exponent_part mark s =
     (case s of
        [] \<Rightarrow> (0, s)
      | c # t \<Rightarrow>
          if c_tolower c = mark then
            (let (neg, t') = sign_part t; ds = takeWhile c_isdigit t' in
             if ds = [] then (0, s)
             else ((if neg then - int (digits_value 10 ds) else int (digits_value 10 ds)),
                   dropWhile c_isdigit t'))
          else (0, s))"

definition number_part ::
  "nat \<Rightarrow> (char \<Rightarrow> bool) \<Rightarrow> char \<Rightarrow> nat \<Rightarrow> string \<Rightarrow> (rat \<times> string) option" where
  "number_part base isd mark ebase s =
     (let ip = takeWhile isd s; r1 = dropWhile isd s;
          (fp, r2) = (case r1 of
                        [] \<Rightarrow> ([], r1)
                      | c # t \<Rightarrow> if c = CHR ''.'' then (takeWhile isd t, dropWhile isd t)
                                else ([], r1))
      in if ip = [] \<and> fp = [] then None
         else let (e, r3) = exponent_part mark r2;
                  m = of_nat (digits_value base (ip @ fp)) / of_nat base ^ length fp
              in Some (m * of_nat ebase powi e, r3))"

definition numeric_part :: "string \<Rightarrow> (rat \<times> string) option" where
  "numeric_part s =
     (case s of
        z # x # t \<Rightarrow>
          if z = CHR ''0'' \<and> c_tolower x = CHR ''x'' then
            (case number_part 16 c_isxdigit (CHR ''p'') 2 t of
               Some r \<Rightarrow> Some r
             | None \<Rightarrow> number_part 10 c_isdigit (CHR ''e'') 10 s)
          else number_part 10 c_isdigit (CHR ''e'') 10 s
      | _ \<Rightarrow> number_part 10 c_isdigit (CHR ''e'') 10 s)"

definition nan_tail :: "string \<Rightarrow> string" where
  "nan_tail s =
     (case s of
        [] \<Rightarrow> s
      | c # t \<Rightarrow>
          if c = CHR ''('' then
            (case dropWhile c_isnchar t of
               [] \<Rightarrow> s
             | d # u \<Rightarrow> if d = CHR '')'' then u else s)
          else s)"

definition strtof_c :: "string \<Rightarrow> f32 \<times> nat" where
  "strtof_c s =
     (let (neg, s2) = sign_part (dropWhile c_isspace s);
          parsed =
            (if map c_tolower (take 8 s2) = ''infinity'' then Some (PInf, drop 8 s2)
             else if map c_tolower (take 3 s2) = ''inf'' then Some (PInf, drop 3 s2)
             else if map c_tolower (take 3 s2) = ''nan'' then Some (NaN, nan_tail (drop 3 s2))
             else map_option (\<lambda>(q, rest). (rnd q, rest)) (numeric_part s2))
      in case parsed of
           None \<Rightarrow> (Fin 0, 0)
         | Some (v, rest) \<Rightarrow> (if neg then fneg v else v, length s - length rest))"

section \<open>Utilities of the sketch\<close>

definition clampNonNegative :: "f32 \<Rightarrow> f32" where
  "clampNonNegative v = (if flt v (Fin 0) then Fin 0 else v)"

text \<open>
  A \<^verbatim>\<open>const char*\<close> is a null pointer (\<open>None\<close>) or the characters before the
  terminating zero byte. \<^verbatim>\<open>end == s\<close> holds when \<^verbatim>\<open>strtof\<close> consumed nothing.
\<close>

definition parseFloatSafe :: "(string \<Rightarrow> f32 \<times> nat) \<Rightarrow> string option \<Rightarrow> f32" where
  "parseFloatSafe strtof s =
     (case s of
        None \<Rightarrow> Fin 0
      | Some str \<Rightarrow>
          if str = [] then Fin 0
          else let (v, consumed) = strtof str in
               if consumed = 0 then Fin 0 else clampNonNegative v)"

text \<open>
  A \<^verbatim>\<open>char\<close> array is the list of its bytes; the C string it holds ends before the
  first zero byte.
\<close>

definition NUL :: char where
  "NUL = CHR 0x00"

definition c_str :: "char list \<Rightarrow> string" where
  "c_str buf = takeWhile (\<lambda>c. c \<noteq> NUL) buf"

text \<open>
  \<^verbatim>\<open>safeCopy\<close>: the destination is never a null pointer in the sketch; the source may
  be. \<^verbatim>\<open>memcpy\<close> replaces the first \<open>n\<close> bytes of the destination.
\<close>

definition memcpy :: "char list \<Rightarrow> char list \<Rightarrow> nat \<Rightarrow> char list" where
  "memcpy dst src n = take n src @ drop n dst"

definition safeCopy :: "char list \<Rightarrow> nat \<Rightarrow> char list option \<Rightarrow> nat \<Rightarrow> char list" where
  "safeCopy dst dstSize src srcLen =
     (if dstSize = 0 then dst
      else
        let n = (if srcLen < dstSize - 1 then srcLen else dstSize - 1);
            dst = (case src of
                     Some bytes \<Rightarrow> if 0 < srcLen then memcpy dst bytes n else dst
                   | None \<Rightarrow> dst)
        in dst[n := NUL])"

text \<open>
  \<^verbatim>\<open>strncpy\<close> writes exactly \<open>n\<close> bytes: the string of the source, cut at \<open>n\<close>
  characters, then zero bytes.
\<close>

definition strncpy :: "char list \<Rightarrow> char list \<Rightarrow> nat \<Rightarrow> char list" where
  "strncpy dst src n = take n (c_str src @ replicate n NUL) @ drop n dst"

section \<open>The battery helpers\<close>

definition NUM_POINTS :: nat where
  "NUM_POINTS = 8"

definition voltTable :: "f32 list" where
  "voltTable =
     [rnd (320 / 100), rnd (330 / 100), rnd (360 / 100), rnd (375 / 100),
      rnd (385 / 100), rnd (395 / 100), rnd (405 / 100), rnd (415 / 100)]"

definition socTable :: "int list" where
  "socTable = [0, 2, 25, 50, 70, 90, 97, 100]"

text \<open>The values of \<^verbatim>\<open>voltTable\<close>, the decimal literals rounded to \<^verbatim>\<open>float\<close>.\<close>

definition voltq :: "rat list" where
  "voltq =
     [13421773 / 4194304, 13841203 / 4194304, 7549747 / 2097152, 15 / 4,
      8074035 / 2097152, 16567501 / 4194304, 4246733 / 1048576, 8703181 / 2097152]"

text \<open>Lines 114 to 119: the interpolated and clamped percentage in segment \<open>i\<close>.\<close>

definition segment_soc :: "f32 \<Rightarrow> nat \<Rightarrow> f32" where
  "segment_soc v i =
     (let v1 = voltTable ! i;
          v2 = voltTable ! (i + 1);
          soc1 = socTable ! i;
          soc2 = socTable ! (i + 1);
          t = fdiv (fsub v v1) (fsub v2 v1);
          soc = fadd (f32_of_int soc1) (fmul t (f32_of_int (soc2 - soc1)));
          soc = (if flt soc (f32_of_int 0) then f32_of_int 0 else soc);
          soc = (if fgt soc (f32_of_int 100) then f32_of_int 100 else soc)
      in soc)"

text \<open>The \<^verbatim>\<open>for\<close> loop from index \<open>i\<close> on, with the final \<^verbatim>\<open>return 0\<close>.\<close>

function battery_scan :: "f32 \<Rightarrow> nat \<Rightarrow> int option" where
  "battery_scan v i =
     (if i < NUM_POINTS - 1 then
        (if fge v (voltTable ! i) \<and> fle v (voltTable ! (i + 1))
         then int_of_f32 (fadd (segment_soc v i) (Fin (1 / 2)))
         else battery_scan v (i + 1))
      else Some 0)"
  by pat_completeness auto
termination
  by (relation "measure (\<lambda>(v, i). NUM_POINTS - 1 - i)") auto

declare battery_scan.simps [simp del]

definition batteryPercentFromVoltage :: "f32 \<Rightarrow> int option" where
  "batteryPercentFromVoltage v =
     (if fle v (voltTable ! 0) then Some (socTable ! 0)
      else if fge v (voltTable ! (NUM_POINTS - 1)) then Some (socTable ! (NUM_POINTS - 1))
      else battery_scan v 0)"

text \<open>\<^verbatim>\<open>readBatteryVoltage\<close>, from the raw sample that \<^verbatim>\<open>analogRead\<close> returns.\<close>

definition readBatteryVoltage :: "int \<Rightarrow> f32" where
  "readBatteryVoltage raw =
     (let v_adc = fmul (fdiv (f32_of_int raw) (Fin 4095)) (rnd (33 / 10));
          v_batt = fmul v_adc (rnd (49 / 10))
      in v_batt)"

subsection \<open>The curve of the specification\<close>

text \<open>
  The anchor table in the words of the specification, in exact arithmetic: between two
  consecutive anchors the percentage is the linear interpolation between their percents,
  rounded to the nearest integer and clamped to the range from 0 to 100.
\<close>

definition anchor_volts :: "rat list" where
  "anchor_volts =
     [320 / 100, 330 / 100, 360 / 100, 375 / 100, 385 / 100, 395 / 100, 405 / 100, 415 / 100]"

definition exact_interpolation :: "rat \<Rightarrow> nat \<Rightarrow> rat" where
  "exact_interpolation v i =
     of_int (socTable ! i) +
     (v - anchor_volts ! i) / (anchor_volts ! (i + 1) - anchor_volts ! i) *
       of_int (socTable ! (i + 1) - socTable ! i)"

definition nearest_percent :: "rat \<Rightarrow> int" where
  "nearest_percent x = max 0 (min 100 \<lfloor>x + 1 / 2\<rfloor>)"

section \<open>The longevity simulation\<close>

text \<open>
  \<^verbatim>\<open>computeLongevityWithInflation\<close> writes three \<^verbatim>\<open>int\<close> out-parameters; the model
  returns them as a record. \<^verbatim>\<open>powf\<close> is the C library's; it is a parameter of the
  model. The counter \<^verbatim>\<open>days\<close> stays within \<^verbatim>\<open>MAX_DAYS\<close>, far from the 32-bit
  limit, so it is an unbounded integer here; \<^verbatim>\<open>/\<close> and \<^verbatim>\<open>%\<close> on \<^verbatim>\<open>int\<close> truncate
  towards zero (\<open>sdiv\<close>, \<open>smod\<close>).
\<close>

record longevity =
  outYears :: int
  outMonths :: int
  outWeeks :: int

definition MAX_DAYS :: int where
  "MAX_DAYS = 365 * 200"

text \<open>
  The \<^verbatim>\<open>while\<close> loop. The last argument is not a variable of the program: it counts
  the executions of the loop body, the one that leaves by \<^verbatim>\<open>break\<close> included.
\<close>

function day_loop :: "f32 \<Rightarrow> f32 \<Rightarrow> f32 \<Rightarrow> int \<Rightarrow> nat \<Rightarrow> int \<times> nat" where
  "day_loop dailyMul remaining dailyExpense days iters =
     (if days < MAX_DAYS then
        (if flt remaining dailyExpense then (days, iters + 1)
         else day_loop dailyMul (fsub remaining dailyExpense) (fmul dailyExpense dailyMul)
                (days + 1) (iters + 1))
      else (days, iters))"
  by pat_completeness auto
termination
  by (relation "measure (\<lambda>(dailyMul, remaining, dailyExpense, days, iters). nat (MAX_DAYS - days))")
    auto

declare day_loop.simps [simp del]

text \<open>Lines 179 to 185: days to years, months and weeks.\<close>

definition days_to_longevity :: "int \<Rightarrow> longevity" where
  "days_to_longevity days =
     (let outYears = days sdiv 365;
          remDays = days smod 365;
          outMonths = remDays sdiv 30;
          remDays = remDays smod 30;
          outWeeks = remDays sdiv 7
      in \<lparr>outYears = outYears, outMonths = outMonths, outWeeks = outWeeks\<rparr>)"

text \<open>
  The function, with the number of loop-body executions beside its result.
\<close>

definition computeLongevity_run ::
  "(f32 \<Rightarrow> f32 \<Rightarrow> f32) \<Rightarrow> f32 \<Rightarrow> f32 \<Rightarrow> f32 \<Rightarrow> longevity \<times> nat" where
  "computeLongevity_run powf usdWealth monthlyExpenseToday inflationAnnual =
     (if fle usdWealth (Fin 0) \<or> fle monthlyExpenseToday (Fin 0)
      then (\<lparr>outYears = 0, outMonths = 0, outWeeks = 0\<rparr>, 0)
      else
        let inflationAnnual = (if flt inflationAnnual (Fin 0) then Fin 0 else inflationAnnual);
            dailyMul = powf (fadd (Fin 1) inflationAnnual) (fdiv (Fin 1) (Fin 365));
            dailyExpenseBase = fdiv monthlyExpenseToday (Fin 30);
            (days, iters) = day_loop dailyMul usdWealth dailyExpenseBase 0 0
        in (days_to_longevity days, iters))"

definition computeLongevityWithInflation ::
  "(f32 \<Rightarrow> f32 \<Rightarrow> f32) \<Rightarrow> f32 \<Rightarrow> f32 \<Rightarrow> f32 \<Rightarrow> longevity" where
  "computeLongevityWithInflation powf usdWealth monthlyExpenseToday inflationAnnual =
     fst (computeLongevity_run powf usdWealth monthlyExpenseToday inflationAnnual)"


subsection \<open>The reference algorithm\<close>

text \<open>
  The algorithm in the words of the specification, in the same arithmetic. First as the
  claim gives it, with no bound on the days: once per simulated day, stop if the remaining
  wealth is below the daily expense, otherwise subtract the expense, multiply it by
  \<open>dailyMul\<close> and count the day. Nothing forces this loop to stop, so its result is
  optional.
\<close>

partial_function (option) ref_days_unbounded :: "f32 \<Rightarrow> f32 \<Rightarrow> f32 \<Rightarrow> nat \<Rightarrow> nat option" where
  "ref_days_unbounded dailyMul remaining expense n =
     (if flt remaining expense then Some n
      else ref_days_unbounded dailyMul (fsub remaining expense) (fmul expense dailyMul) (Suc n))"

definition ref_convert :: "nat \<Rightarrow> longevity" where
  "ref_convert n =
     \<lparr>outYears = int (n div 365),
      outMonths = int ((n mod 365) div 30),
      outWeeks = int (((n mod 365) mod 30) div 7)\<rparr>"

definition ref_daily_mul :: "(f32 \<Rightarrow> f32 \<Rightarrow> f32) \<Rightarrow> f32 \<Rightarrow> f32" where
  "ref_daily_mul powf r =
     powf (fadd (Fin 1) (if flt r (Fin 0) then Fin 0 else r)) (fdiv (Fin 1) (Fin 365))"

definition reference_unbounded ::
  "(f32 \<Rightarrow> f32 \<Rightarrow> f32) \<Rightarrow> f32 \<Rightarrow> f32 \<Rightarrow> f32 \<Rightarrow> longevity option" where
  "reference_unbounded powf w m r =
     map_option ref_convert
       (ref_days_unbounded (ref_daily_mul powf r) w (fdiv m (Fin 30)) 0)"

text \<open>
  The same with the specification's hard cap of 365 times 200 days: the first argument
  is the number of days still allowed.
\<close>

primrec ref_days :: "nat \<Rightarrow> f32 \<Rightarrow> f32 \<Rightarrow> f32 \<Rightarrow> nat" where
  "ref_days 0 dailyMul remaining expense = 0"
| "ref_days (Suc budget) dailyMul remaining expense =
     (if flt remaining expense then 0
      else Suc (ref_days budget dailyMul (fsub remaining expense) (fmul expense dailyMul)))"

definition reference_capped ::
  "(f32 \<Rightarrow> f32 \<Rightarrow> f32) \<Rightarrow> f32 \<Rightarrow> f32 \<Rightarrow> f32 \<Rightarrow> longevity" where
  "reference_capped powf w m r =
     ref_convert (ref_days (365 * 200) (ref_daily_mul powf r) w (fdiv m (Fin 30)))"

section \<open>The MQTT callback and the wake cycle\<close>

text \<open>
  The globals of the sketch. The two \<^verbatim>\<open>last\<close> text fields and the battery fields are
  kept in RTC memory over deep sleep. The last field is not a variable of the program:
  it records the operations of a cycle in the order in which they are performed.
\<close>

datatype event =
    PowerDisplay
  | ReadBattery
  | WifiConnect
  | TimeSync
  | ResetIncoming
  | MqttConnect
  | MqttSubscribe
  | MqttLoop
  | DrawFrame
  | MqttDisconnect
  | WifiDisconnect
  | DeepSleep

record device =
  lastPriceUsd :: "char list"
  lastBalanceBtc :: "char list"
  lastBatteryVoltage :: f32
  lastBatteryPercent :: int
  gotPrice :: bool
  gotBalance :: bool
  priceUsdBuf :: "char list"
  balanceBtcBuf :: "char list"
  trace :: "event list"

definition log_event :: "event \<Rightarrow> device \<Rightarrow> device" where
  "log_event ev st = st\<lparr>trace := trace st @ [ev]\<rparr>"

definition MONTHLY_EXP_USD :: f32 where
  "MONTHLY_EXP_USD = Fin 10000"

definition INFLATION_ANNUAL :: f32 where
  "INFLATION_ANNUAL = rnd (2 / 100)"

definition TOPIC_PRICE_USD :: string where
  "TOPIC_PRICE_USD = ''home/bitcoin/price/usd''"

definition TOPIC_BALANCE_BTC :: string where
  "TOPIC_BALANCE_BTC = ''home/bitcoin/wallets/total_btc''"

text \<open>The state at the first power-on: the initialisers of the globals.\<close>

definition power_on :: device where
  "power_on =
     \<lparr>lastPriceUsd = ''--'' @ replicate 14 NUL,
      lastBalanceBtc = ''--'' @ replicate 14 NUL,
      lastBatteryVoltage = Fin 0,
      lastBatteryPercent = - 1,
      gotPrice = False,
      gotBalance = False,
      priceUsdBuf = replicate 16 NUL,
      balanceBtcBuf = replicate 16 NUL,
      trace = []\<rparr>"

text \<open>
  \<^verbatim>\<open>mqttCallback\<close>: the topic and the payload are pointers, so they may be null;
  \<^verbatim>\<open>strcmp\<close> compares the topic with the two topic names.
\<close>

definition mqttCallback :: "string option \<Rightarrow> char list option \<Rightarrow> nat \<Rightarrow> device \<Rightarrow> device" where
  "mqttCallback topic payload len st =
     (if topic = None \<or> payload = None \<or> len = 0 then st
      else if topic = Some TOPIC_PRICE_USD then
        st\<lparr>priceUsdBuf := safeCopy (priceUsdBuf st) 16 payload len, gotPrice := True\<rparr>
      else if topic = Some TOPIC_BALANCE_BTC then
        st\<lparr>balanceBtcBuf := safeCopy (balanceBtcBuf st) 16 payload len, gotBalance := True\<rparr>
      else st)"

text \<open>
  What a cycle meets outside the sketch: the raw battery sample, whether the WiFi and
  the broker connections succeed, the text of the time stamp, whether the broker is still
  connected at shutdown, and the messages. The messages are given per call of
  \<^verbatim>\<open>mqttClient.loop()\<close> in the four-second window, as pairs of a topic and a payload;
  the client library hands each to the callback with the length of the payload. The
  number of entries is the number of turns of the wait loop that fit into the window.
\<close>

record env =
  analog_raw :: int
  wifi_connects :: bool
  timestamp_text :: string
  mqtt_connects :: bool
  mqtt_deliveries :: "(string \<times> char list) list list"
  mqtt_connected_at_end :: bool

definition deliver :: "device \<Rightarrow> string \<times> char list \<Rightarrow> device" where
  "deliver st m = mqttCallback (Some (fst m)) (Some (snd m)) (length (snd m)) st"

text \<open>The wait loop of lines 348 to 352.\<close>

fun wait_loop :: "(string \<times> char list) list list \<Rightarrow> device \<Rightarrow> device" where
  "wait_loop [] st = st"
| "wait_loop (ms # rest) st =
     (let st = foldl deliver (log_event MqttLoop st) ms in
      if gotPrice st \<and> gotBalance st then st else wait_loop rest st)"

text \<open>\<^verbatim>\<open>connectMQTT\<close>: its retry loop is bounded by a timeout; the model takes its outcome.\<close>

definition connectMQTT :: "env \<Rightarrow> device \<Rightarrow> bool \<times> device" where
  "connectMQTT e st =
     (let st = log_event MqttConnect st in
      if \<not> mqtt_connects e then (False, st)
      else (True, log_event MqttSubscribe (log_event MqttSubscribe st)))"

text \<open>What a cycle hands to \<^verbatim>\<open>drawFreedomClock\<close>, the balance it computed, and the globals
  it leaves behind.\<close>

record cycle =
  final :: device
  priceUsd :: f32
  balanceBtc :: f32
  shown :: longevity
  shown_vbat :: f32
  shown_pct :: int
  shown_timestamp :: string

text \<open>Lines 339 to 342: the flags and the first byte of each incoming buffer.\<close>

definition reset_incoming :: "device \<Rightarrow> device" where
  "reset_incoming st =
     (let st = log_event ResetIncoming st in
      st\<lparr>gotPrice := False, gotBalance := False,
         priceUsdBuf := (priceUsdBuf st)[0 := NUL],
         balanceBtcBuf := (balanceBtcBuf st)[0 := NUL]\<rparr>)"

text \<open>
  Lines 327 to 353, the network part: WiFi, time synchronisation, the reset, the broker
  and the wait loop. (The time stamp it produces is taken from the environment below.)
\<close>

definition acquire :: "env \<Rightarrow> device \<Rightarrow> device" where
  "acquire e st =
     (let st = log_event WifiConnect st;
          wifiOK = wifi_connects e;
          st = (if wifiOK then log_event TimeSync st else st);
          st = reset_incoming st;
          (mqttOK, st) = (if wifiOK then connectMQTT e st else (False, st))
      in if mqttOK then wait_loop (mqtt_deliveries e) st else st)"

text \<open>Lines 371 to 379: the retained texts.\<close>

definition persist :: "device \<Rightarrow> device" where
  "persist st =
     (let st = (if gotPrice st
                then st\<lparr>lastPriceUsd :=
                         (strncpy (lastPriceUsd st) (priceUsdBuf st) 15)[15 := NUL]\<rparr>
                else st);
          st = (if gotBalance st
                then st\<lparr>lastBalanceBtc :=
                         (strncpy (lastBalanceBtc st) (balanceBtcBuf st) 15)[15 := NUL]\<rparr>
                else st)
      in st)"

text \<open>Lines 381 to 385.\<close>

definition shutdown :: "env \<Rightarrow> device \<Rightarrow> device" where
  "shutdown e st =
     (let st = (if mqtt_connected_at_end e then log_event MqttDisconnect st else st);
          st = log_event WifiDisconnect st
      in log_event DeepSleep st)"

text \<open>
  \<^verbatim>\<open>setup()\<close>, the whole wake cycle. The record of operations starts empty. The result
  is \<open>None\<close> if the cast in the battery helper is undefined.
\<close>

definition setup_cycle ::
  "(f32 \<Rightarrow> f32 \<Rightarrow> f32) \<Rightarrow> (string \<Rightarrow> f32 \<times> nat) \<Rightarrow> env \<Rightarrow> device \<Rightarrow> cycle option" where
  "setup_cycle powf strtof e st =
     (let st = log_event PowerDisplay (st\<lparr>trace := []\<rparr>);
          vbat = readBatteryVoltage (analog_raw e);
          st = log_event ReadBattery st
      in case batteryPercentFromVoltage vbat of
           None \<Rightarrow> None
         | Some pct \<Rightarrow>
             let st = st\<lparr>lastBatteryVoltage := vbat, lastBatteryPercent := pct\<rparr>;
                 timestamp = (if wifi_connects e then timestamp_text e else ''--'');
                 st = acquire e st;
                 priceStr = (if gotPrice st then priceUsdBuf st else lastPriceUsd st);
                 balanceStr = (if gotBalance st then balanceBtcBuf st else lastBalanceBtc st);
                 priceUsd = parseFloatSafe strtof (Some (c_str priceStr));
                 balanceBtc = parseFloatSafe strtof (Some (c_str balanceStr));
                 usdWealth = fmul balanceBtc priceUsd;
                 lon = computeLongevityWithInflation powf usdWealth MONTHLY_EXP_USD
                         INFLATION_ANNUAL;
                 st = log_event DrawFrame st;
                 st = persist st;
                 st = shutdown e st
             in Some \<lparr>final = st, priceUsd = priceUsd, balanceBtc = balanceBtc,
                      shown = lon, shown_vbat = vbat, shown_pct = pct,
                      shown_timestamp = timestamp\<rparr>)"

subsection \<open>Notions for the statements about a cycle\<close>

text \<open>
  The operations that use the network, and those among them that use the MQTT client;
  only the latter can run the callback.
\<close>

fun is_network_op :: "event \<Rightarrow> bool" where
  "is_network_op WifiConnect = True"
| "is_network_op TimeSync = True"
| "is_network_op MqttConnect = True"
| "is_network_op MqttSubscribe = True"
| "is_network_op MqttLoop = True"
| "is_network_op MqttDisconnect = True"
| "is_network_op WifiDisconnect = True"
| "is_network_op _ = False"

fun is_mqtt_op :: "event \<Rightarrow> bool" where
  "is_mqtt_op MqttConnect = True"
| "is_mqtt_op MqttSubscribe = True"
| "is_mqtt_op MqttLoop = True"
| "is_mqtt_op MqttDisconnect = True"
| "is_mqtt_op _ = False"

text \<open>
  In a record of operations the reset comes before every operation of a kind: the reset
  occurs, and no operation of the kind stands before its first occurrence.
\<close>

definition reset_precedes :: "(event \<Rightarrow> bool) \<Rightarrow> event list \<Rightarrow> bool" where
  "reset_precedes kind tr =
     (ResetIncoming \<in> set tr \<and>
      \<not> list_ex kind (takeWhile (\<lambda>ev. ev \<noteq> ResetIncoming) tr))"

text \<open>
  A topic delivers a value in a cycle when both connections succeed and a message with
  that topic and a payload that is not empty arrives in the window. Its fresh payload is
  that of the last such message. (\<open>payloads\<close> are those payloads in a run of messages.)
\<close>

definition payloads :: "string \<Rightarrow> (string \<times> char list) list \<Rightarrow> char list list" where
  "payloads topic ms = map snd (filter (\<lambda>m. fst m = topic \<and> snd m \<noteq> []) ms)"

definition topic_messages :: "env \<Rightarrow> string \<Rightarrow> char list list" where
  "topic_messages e topic = payloads topic (concat (mqtt_deliveries e))"

definition delivers :: "env \<Rightarrow> string \<Rightarrow> bool" where
  "delivers e topic =
     (wifi_connects e \<and> mqtt_connects e \<and> topic_messages e topic \<noteq> [])"

definition fresh_payload :: "env \<Rightarrow> string \<Rightarrow> char list" where
  "fresh_payload e topic = last (topic_messages e topic)"

text \<open>
  An invariant of the incoming buffers: they keep their 16 bytes and hold strings of at
  most 15 characters.
\<close>

definition buffers_ok :: "device \<Rightarrow> bool" where
  "buffers_ok st =
     (length (priceUsdBuf st) = 16 \<and> length (balanceBtcBuf st) = 16 \<and>
      length (c_str (priceUsdBuf st)) \<le> 15 \<and> length (c_str (balanceBtcBuf st)) \<le> 15)"

text \<open>Two environments for the examples: only the balance arrives; nothing arrives.\<close>

definition env_balance_only :: env where
  "env_balance_only =
     \<lparr>analog_raw = 3000, wifi_connects = True, timestamp_text = ''2025-01-01 12:00'',
      mqtt_connects = True, mqtt_deliveries = [[], [(TOPIC_BALANCE_BTC, ''0.5'')], []],
      mqtt_connected_at_end = True\<rparr>"

definition env_silent :: env where
  "env_silent =
     \<lparr>analog_raw = 3000, wifi_connects = True, timestamp_text = ''--'',
      mqtt_connects = True, mqtt_deliveries = [[], [], []],
      mqtt_connected_at_end = True\<rparr>"

section \<open>Properties of the arithmetic\<close>

lemma rhe_of_int: "rhe (of_int z) = z"
  by (simp add: rhe_def)

lemma expo_ge: "- 126 \<le> expo a"
  by (simp add: expo_def Let_def split: prod.splits)

lemma powi_mono2: "i \<le> j \<Longrightarrow> (2::rat) powi i \<le> 2 powi j"
  by (rule power_int_increasing) simp_all

lemma powi_nat_diff: "(2::rat) powi (int x - int y) = 2 ^ x / 2 ^ y"
  by (simp add: power_int_diff)

lemma expo_bounds:
  assumes "0 < a"
  shows "a < 2 powi (expo a + 1)" and "expo a = - 126 \<or> 2 powi (expo a) \<le> a"
proof -
  obtain n d where q: "quotient_of a = (n, d)" by (cases "quotient_of a")
  have d: "0 < d" using q by (rule quotient_of_denom_pos)
  have a: "a = of_int n / of_int d" using q by (rule quotient_of_div)
  have n: "0 < n" using assms d a by (simp add: zero_less_divide_iff)
  define k where "k = bitlen n - bitlen d"
  from bitlen_bounds [OF n] have n1: "2 ^ nat (bitlen n - 1) \<le> n" and n2: "n < 2 ^ nat (bitlen n)" by auto
  from bitlen_bounds [OF d] have d1: "2 ^ nat (bitlen d - 1) \<le> d" and d2: "d < 2 ^ nat (bitlen d)" by auto
  have bn: "1 \<le> bitlen n" using n bitlen_eq_zero_iff [of n] bitlen_nonneg [of n] by linarith
  have bd: "1 \<le> bitlen d" using d bitlen_eq_zero_iff [of d] bitlen_nonneg [of d] by linarith
  have rn1: "(2::rat) ^ nat (bitlen n - 1) \<le> of_int n"
    using n1 by (metis of_int_le_iff of_int_numeral of_int_power)
  have rn2: "of_int n < (2::rat) ^ nat (bitlen n)"
    using n2 by (metis of_int_less_iff of_int_numeral of_int_power)
  have rd1: "(2::rat) ^ nat (bitlen d - 1) \<le> of_int d"
    using d1 by (metis of_int_le_iff of_int_numeral of_int_power)
  have rd2: "of_int d < (2::rat) ^ nat (bitlen d)"
    using d2 by (metis of_int_less_iff of_int_numeral of_int_power)
  have e1: "(2::rat) powi (k + 1) = 2 ^ nat (bitlen n) / 2 ^ nat (bitlen d - 1)"
  proof -
    have "k + 1 = int (nat (bitlen n)) - int (nat (bitlen d - 1))"
      using bn bd by (simp add: k_def)
    then show ?thesis
      by (simp only: powi_nat_diff)
  qed
  have e2: "(2::rat) powi (k - 1) = 2 ^ nat (bitlen n - 1) / 2 ^ nat (bitlen d)"
  proof -
    have "k - 1 = int (nat (bitlen n - 1)) - int (nat (bitlen d))"
      using bn bd by (simp add: k_def)
    then show ?thesis
      by (simp only: powi_nat_diff)
  qed
  have up: "a < 2 powi (k + 1)"
    unfolding e1 a using rn2 rd1 n by (intro frac_less) simp_all
  have lo: "2 powi (k - 1) \<le> a"
    unfolding e2 a using rn1 rd2 d n by (intro frac_le) simp_all
  have ex: "expo a = max (- 126) (if 2 powi k \<le> a then k else k - 1)"
    by (simp add: expo_def q k_def)
  show "a < 2 powi (expo a + 1)"
  proof (cases "2 powi k \<le> a")
    case True
    have "(2::rat) powi (k + 1) \<le> 2 powi (max (- 126) k + 1)"
      by (rule powi_mono2) simp
    with up True show ?thesis by (simp add: ex)
  next
    case False
    have "(2::rat) powi k \<le> 2 powi (max (- 126) (k - 1) + 1)"
      by (rule powi_mono2) simp
    with False show ?thesis by (simp add: ex)
  qed
  show "expo a = - 126 \<or> 2 powi (expo a) \<le> a" 
  proof (cases "2 powi k \<le> a")
    case True
    then show ?thesis by (auto simp add: ex max_def)
  next
    case False
    with lo show ?thesis by (auto simp add: ex max_def)
  qed
qed

text \<open>A number with at most 24 significant bits above the smallest spacing is not changed.\<close>

lemma rnd_exact_pos:
  assumes a: "a = of_int m * 2 powi j" and m: "0 < m" "m < 2 ^ 24" and j: "- 149 \<le> j" "j \<le> 104"
  shows "rnd a = Fin a"
proof -
  have pos: "0 < a" using a m by simp
  have lt: "a < 2 powi (j + 24)"
  proof -
    have "of_int m < (2::rat) ^ 24" using m(2) by (metis of_int_less_iff of_int_numeral of_int_power)
    then have "of_int m * 2 powi j < (2::rat) ^ 24 * 2 powi j"
      by (simp)
    also have "\<dots> = 2 powi (j + 24)"
      by (simp add: power_int_add)
    finally show ?thesis by (simp add: a)
  qed
  define e where "e = expo a"
  have e_le: "e \<le> j + 23"
  proof -
    from expo_bounds(2) [OF pos] consider "e = - 126" | "2 powi e \<le> a" by (auto simp: e_def)
    then show ?thesis
    proof cases
      case 1 then show ?thesis using j by simp
    next
      case 2
      with lt have "(2::rat) powi e < 2 powi (j + 24)" by simp
      have "e < j + 24"
      proof (rule ccontr)
        assume "\<not> e < j + 24"
        then have "(2::rat) powi (j + 24) \<le> 2 powi e" by (intro powi_mono2) simp
        with \<open>(2::rat) powi e < 2 powi (j + 24)\<close> show False by simp
      qed
      then show ?thesis by simp
    qed
  qed
  define s where "s = nat (j + 23 - e)"
  have js: "j = (e - 23) + int s" using e_le by (simp add: s_def)
  have q: "a / 2 powi (e - 23) = of_int (m * 2 ^ s)"
    by (simp add: a js power_int_add)
  have r: "of_int (rhe (a / 2 powi (e - 23))) * 2 powi (e - 23) = a"
    unfolding q rhe_of_int by (simp add: a js power_int_add)
  have "a < 2 ^ 128"
  proof -
    have "(2::rat) powi (j + 24) \<le> 2 powi 128" using j by (intro powi_mono2) simp
    with lt show ?thesis by simp
  qed
  with pos r show ?thesis
    by (simp add: rnd_def Let_def e_def [symmetric])
qed

lemma rnd_uminus: "rnd (- x) = fneg (rnd x)"
  by (simp add: rnd_def Let_def)

lemma rnd_of_int:
  assumes "\<bar>n\<bar> < 2 ^ 24"
  shows "rnd (of_int n) = Fin (of_int n)"
proof -
  have pos: "rnd (of_int m) = Fin (of_int m)" if "0 < m" "m < 2 ^ 24" for m :: int
    using rnd_exact_pos [of "of_int m" m 0] that by simp
  consider "n = 0" | "0 < n" | "n < 0" by linarith
  then show ?thesis
  proof cases
    case 1 then show ?thesis by (simp add: rnd_def)
  next
    case 2 with assms show ?thesis by (simp add: pos)
  next
    case 3
    with assms have "rnd (of_int (- n)) = Fin (of_int (- n))" by (intro pos) simp_all
    then have "fneg (rnd (of_int n)) = Fin (- of_int n)" by (simp add: rnd_uminus)
    then show ?thesis by (cases "rnd (of_int n)") simp_all
  qed
qed

lemma rnd_of_nat: "k < 2 ^ 24 \<Longrightarrow> rnd (of_nat k) = Fin (of_nat k)"
  using rnd_of_int [of "int k"] by simp

lemma rnd_one: "rnd 1 = Fin 1"
  using rnd_of_int [of 1] by simp


lemma rhe_floor_cases: "rhe a = \<lfloor>a\<rfloor> \<or> rhe a = \<lfloor>a\<rfloor> + 1"
  by (simp add: rhe_def Let_def)

lemma rhe_mono:
  assumes "a \<le> b"
  shows "rhe a \<le> rhe b"
proof (cases "\<lfloor>a\<rfloor> = \<lfloor>b\<rfloor>")
  case True
  with assms have "a - of_int \<lfloor>a\<rfloor> \<le> b - of_int \<lfloor>b\<rfloor>" by simp
  with True show ?thesis by (auto simp add: rhe_def Let_def)
next
  case False
  with assms have "\<lfloor>a\<rfloor> < \<lfloor>b\<rfloor>" by (simp add: floor_mono order_neq_le_trans)
  moreover have "rhe a \<le> \<lfloor>a\<rfloor> + 1" "\<lfloor>b\<rfloor> \<le> rhe b"
    using rhe_floor_cases [of a] rhe_floor_cases [of b] by auto
  ultimately show ?thesis by linarith
qed

lemma rhe_le_of_int: "a \<le> of_int n \<Longrightarrow> rhe a \<le> n"
  using rhe_mono [of a "of_int n"] by (simp add: rhe_of_int)

lemma rhe_ge_of_int: "of_int n \<le> a \<Longrightarrow> n \<le> rhe a"
  using rhe_mono [of "of_int n" a] by (simp add: rhe_of_int)

lemma rhe_error: "\<bar>of_int (rhe a) - a\<bar> \<le> 1 / 2"
proof -
  have "of_int \<lfloor>a\<rfloor> \<le> a" "a < of_int \<lfloor>a\<rfloor> + 1" by linarith+
  then show ?thesis by (auto simp add: rhe_def Let_def abs_le_iff)
qed

lemma rnd_pos: "0 < x \<Longrightarrow> rnd x = (if 2 ^ 128 \<le> rmag x then PInf else Fin (rmag x))"
  by (simp add: rnd_def rmag_def Let_def)

lemma rnd_neg: "x < 0 \<Longrightarrow> rnd x = (if 2 ^ 128 \<le> rmag (- x) then NInf else Fin (- rmag (- x)))"
  by (simp add: rnd_def rmag_def Let_def)

lemma expo_mono:
  assumes "0 < x" "x \<le> y"
  shows "expo x \<le> expo y"
proof (rule ccontr)
  assume "\<not> expo x \<le> expo y"
  then have lt: "expo y + 1 \<le> expo x" by simp
  with expo_ge [of y] have "expo x \<noteq> - 126" by simp
  with expo_bounds(2) [OF assms(1)] have "2 powi (expo x) \<le> x" by simp
  moreover have "y < 2 powi (expo y + 1)" using assms by (intro expo_bounds(1)) simp
  moreover have "(2::rat) powi (expo y + 1) \<le> 2 powi (expo x)" using lt by (rule powi_mono2)
  ultimately show False using assms(2) by linarith
qed

lemma powi_shift: "(2::rat) powi (e + int k) = 2 ^ k * 2 powi e"
  by (simp add: power_int_add)

lemma powi_split24: "(2::rat) powi (e + 1) = 2 ^ 24 * 2 powi (e - 23)"
proof -
  have eq: "e + 1 = (e - 23) + int 24" by simp
  show ?thesis by (subst eq) (rule powi_shift)
qed

lemma powi_split23: "(2::rat) powi e = 2 ^ 23 * 2 powi (e - 23)"
proof -
  have eq: "e = (e - 23) + int 23" by simp
  show ?thesis by (subst eq) (rule powi_shift)
qed

lemma powi_pos2: "0 < (2::rat) powi k"
  by (simp add: zero_less_power_int)

lemma rmag_upper:
  assumes "0 < x"
  shows "rmag x \<le> 2 powi (expo x + 1)"
proof -
  define u where "u = (2::rat) powi (expo x - 23)"
  have u: "0 < u" by (simp add: u_def powi_pos2)
  have "x < 2 powi (expo x + 1)" using assms by (rule expo_bounds(1))
  also have "\<dots> = 2 ^ 24 * u"
    unfolding u_def by (rule powi_split24)
  finally have "x / u \<le> 2 ^ 24" using u by (simp add: pos_divide_le_eq)
  then have "x / u \<le> of_int (2 ^ 24)" by simp
  then have "rhe (x / u) \<le> 2 ^ 24" by (rule rhe_le_of_int)
  then have "of_int (rhe (x / u)) \<le> (2::rat) ^ 24" 
    by (metis of_int_le_iff of_int_numeral of_int_power)
  then have "of_int (rhe (x / u)) * u \<le> 2 ^ 24 * u" using u by simp
  also have "\<dots> = 2 powi (expo x + 1)"
    unfolding u_def by (rule powi_split24 [symmetric])
  finally show ?thesis by (simp add: rmag_def u_def)
qed

lemma rmag_lower:
  assumes "0 < x" "2 powi (expo x) \<le> x"
  shows "2 powi (expo x) \<le> rmag x"
proof -
  define u where "u = (2::rat) powi (expo x - 23)"
  have u: "0 < u" by (simp add: u_def powi_pos2)
  have e: "2 powi (expo x) = 2 ^ 23 * u"
    unfolding u_def by (rule powi_split23)
  with assms(2) have "2 ^ 23 \<le> x / u" using u by (simp add: pos_le_divide_eq)
  then have "of_int (2 ^ 23) \<le> x / u" by simp
  then have "2 ^ 23 \<le> rhe (x / u)" by (rule rhe_ge_of_int)
  then have "(2::rat) ^ 23 \<le> of_int (rhe (x / u))"
    by (metis of_int_le_iff of_int_numeral of_int_power)
  then have "2 ^ 23 * u \<le> of_int (rhe (x / u)) * u" using u by simp
  then show ?thesis by (simp add: e rmag_def u_def)
qed

lemma rmag_nonneg: "0 < x \<Longrightarrow> 0 \<le> rmag x"
proof -
  assume "0 < x"
  then have "0 \<le> x / 2 powi (expo x - 23)" by (simp add: powi_pos2 less_imp_le)
  then have "of_int 0 \<le> x / 2 powi (expo x - 23)" by simp
  then have "0 \<le> rhe (x / 2 powi (expo x - 23))" by (rule rhe_ge_of_int)
  then show ?thesis by (simp add: rmag_def powi_pos2 less_imp_le)
qed

lemma rmag_mono:
  assumes "0 < x" "x \<le> y"
  shows "rmag x \<le> rmag y"
proof (cases "expo x = expo y")
  case True
  define u where "u = (2::rat) powi (expo y - 23)"
  have u: "0 < u" by (simp add: u_def powi_pos2)
  have "x / u \<le> y / u" using assms u by (simp add: divide_right_mono)
  then have "rhe (x / u) \<le> rhe (y / u)" by (rule rhe_mono)
  then have "of_int (rhe (x / u)) * u \<le> of_int (rhe (y / u)) * u" using u by simp
  then show ?thesis by (simp add: rmag_def True u_def)
next
  case False
  with expo_mono [OF assms] have lt: "expo x + 1 \<le> expo y" by simp
  have y: "0 < y" using assms by simp
  from lt expo_ge [of x] have "expo y \<noteq> - 126" by simp
  with expo_bounds(2) [OF y] have "2 powi (expo y) \<le> y" by simp
  then have "2 powi (expo y) \<le> rmag y" using y by (intro rmag_lower)
  moreover have "rmag x \<le> 2 powi (expo x + 1)" using assms(1) by (rule rmag_upper)
  moreover have "(2::rat) powi (expo x + 1) \<le> 2 powi (expo y)" using lt by (rule powi_mono2)
  ultimately show ?thesis by linarith
qed

lemma fle_rnd_pos:
  assumes "0 < x" "x \<le> y"
  shows "fle (rnd x) (rnd y)"
proof -
  have y: "0 < y" using assms by simp
  from rmag_mono [OF assms] show ?thesis
    by (simp add: rnd_pos assms(1) y)
qed

lemma fle_zero_rnd: "0 \<le> x \<Longrightarrow> fle (Fin 0) (rnd x)"
  using rmag_nonneg [of x] by (cases "x = 0") (simp_all add: rnd_pos, simp add: rnd_def)

lemma fle_rnd_zero: "x \<le> 0 \<Longrightarrow> fle (rnd x) (Fin 0)"
  using rmag_nonneg [of "- x"] by (cases "x = 0") (simp_all add: rnd_neg, simp add: rnd_def)

lemma fle_fneg: "fle x y \<Longrightarrow> fle (fneg y) (fneg x)"
  by (cases x; cases y) simp_all

lemma fle_trans: "fle x y \<Longrightarrow> fle y z \<Longrightarrow> fle x z"
  by (cases x; cases y; cases z) simp_all

theorem rnd_mono:
  assumes "x \<le> y"
  shows "fle (rnd x) (rnd y)"
proof -
  consider "0 < x" | "x \<le> 0" "0 \<le> y" | "y < 0" using assms by linarith
  then show ?thesis
  proof cases
    case 1
    then show ?thesis using assms by (rule fle_rnd_pos)
  next
    case 2
    then show ?thesis using fle_trans [OF fle_rnd_zero fle_zero_rnd] by simp
  next
    case 3
    then have "fle (rnd (- y)) (rnd (- x))" using assms by (intro fle_rnd_pos) simp_all
    then have "fle (fneg (rnd (- x))) (fneg (rnd (- y)))" by (rule fle_fneg)
    then show ?thesis by (simp add: rnd_uminus [symmetric])
  qed
qed

lemma rhe_eqI:
  assumes "\<bar>a - of_int m\<bar> < 1 / 2"
  shows "rhe a = m"
proof -
  from assms have lo: "of_int m - 1 / 2 < a" and hi: "a < of_int m + 1 / 2"
    by linarith+
  show ?thesis
  proof (cases "of_int m \<le> a")
    case True
    with hi have f: "\<lfloor>a\<rfloor> = m" by (intro floor_unique) simp_all
    with hi show ?thesis by (simp add: rhe_def Let_def)
  next
    case False
    with lo have f: "\<lfloor>a\<rfloor> = m - 1" by (intro floor_unique) simp_all
    with lo have "1 / 2 < a - of_int (m - 1)" by simp
    with f show ?thesis by (simp add: rhe_def Let_def)
  qed
qed

lemma expo_unique:
  assumes "0 < x" "e = - 126 \<or> 2 powi e \<le> x" "x < 2 powi (e + 1)" "- 126 \<le> e"
  shows "expo x = e"
proof (rule antisym)
  show "expo x \<le> e"
  proof (rule ccontr)
    assume "\<not> expo x \<le> e"
    then have lt: "e + 1 \<le> expo x" by simp
    with assms(4) have "expo x \<noteq> - 126" by simp
    with expo_bounds(2) [OF assms(1)] have "2 powi (expo x) \<le> x" by simp
    moreover have "(2::rat) powi (e + 1) \<le> 2 powi (expo x)" using lt by (rule powi_mono2)
    ultimately show False using assms(3) by linarith
  qed
  show "e \<le> expo x"
  proof (rule ccontr)
    assume "\<not> e \<le> expo x"
    then have lt: "expo x + 1 \<le> e" by simp
    with expo_ge [of x] have "e \<noteq> - 126" by simp
    with assms(2) have "2 powi e \<le> x" by simp
    moreover have "(2::rat) powi (expo x + 1) \<le> 2 powi e" using lt by (rule powi_mono2)
    moreover have "x < 2 powi (expo x + 1)" using assms(1) by (rule expo_bounds(1))
    ultimately show False by linarith
  qed
qed

lemma rnd_eval:
  assumes "0 < x" "e = - 126 \<or> 2 powi e \<le> x" "x < 2 powi (e + 1)" "- 126 \<le> e" "e \<le> 126"
    and "\<bar>x / 2 powi (e - 23) - of_int m\<bar> < 1 / 2"
    and "r = of_int m * 2 powi (e - 23)"
  shows "rnd x = Fin r"
proof -
  have e: "expo x = e" using assms(1-4) by (rule expo_unique)
  have m: "rhe (x / 2 powi (e - 23)) = m" using assms(6) by (rule rhe_eqI)
  have mag: "rmag x = r" by (simp add: rmag_def e m assms(7))
  have "rmag x \<le> 2 powi (e + 1)" using rmag_upper [OF assms(1)] by (simp add: e)
  also have "\<dots> \<le> 2 powi 127" using assms(5) by (intro powi_mono2) simp
  also have "\<dots> < 2 ^ 128" by simp
  finally show ?thesis using assms(1) by (simp add: rnd_pos mag [symmetric])
qed


text \<open>The error of one rounding, for a number below \<open>2 ^ (k + 1)\<close> in magnitude.\<close>

lemma powi_half: "(2::rat) powi (e - 24) = 2 powi (e - 23) / 2"
proof -
  have eq: "e - 23 = (e - 24) + int 1" by simp
  show ?thesis by (subst eq) (simp only: powi_shift, simp)
qed

lemma rmag_error:
  assumes "0 < x"
  shows "\<bar>rmag x - x\<bar> \<le> 2 powi (expo x - 24)"
proof -
  define u where "u = (2::rat) powi (expo x - 23)"
  have u: "0 < u" by (simp add: u_def powi_pos2)
  have "rmag x - x = (of_int (rhe (x / u)) - x / u) * u"
    using u by (simp add: rmag_def u_def [symmetric] algebra_simps)
  then have "\<bar>rmag x - x\<bar> = \<bar>of_int (rhe (x / u)) - x / u\<bar> * u"
    using u by (simp add: abs_mult)
  also have "\<dots> \<le> 1 / 2 * u"
    using rhe_error [of "x / u"] u by (intro mult_right_mono) simp_all
  also have "\<dots> = 2 powi (expo x - 24)"
    by (simp add: powi_half u_def)
  finally show ?thesis .
qed

lemma expo_le:
  assumes "0 < x" "x < 2 powi (k + 1)" "- 126 \<le> k"
  shows "expo x \<le> k"
proof (rule ccontr)
  assume "\<not> expo x \<le> k"
  then have lt: "k + 1 \<le> expo x" by simp
  with assms(3) have "expo x \<noteq> - 126" by simp
  with expo_bounds(2) [OF assms(1)] have "2 powi (expo x) \<le> x" by simp
  moreover have "(2::rat) powi (k + 1) \<le> 2 powi (expo x)" using lt by (rule powi_mono2)
  ultimately show False using assms(2) by linarith
qed

lemma rnd_error_pos:
  assumes "0 < x" "x < 2 powi (k + 1)" "- 126 \<le> k" "k \<le> 126"
  shows "\<exists>r. rnd x = Fin r \<and> \<bar>r - x\<bar> \<le> 2 powi (k - 24)"
proof -
  have e: "expo x \<le> k" using assms(1-3) by (rule expo_le)
  have "rmag x \<le> 2 powi (expo x + 1)" using assms(1) by (rule rmag_upper)
  also have "\<dots> \<le> 2 powi 127" using e assms(4) by (intro powi_mono2) simp
  also have "\<dots> < 2 ^ 128" by simp
  finally have r: "rnd x = Fin (rmag x)" using assms(1) by (simp add: rnd_pos)
  have "\<bar>rmag x - x\<bar> \<le> 2 powi (expo x - 24)" using assms(1) by (rule rmag_error)
  also have "\<dots> \<le> 2 powi (k - 24)" using e by (intro powi_mono2) simp
  finally show ?thesis using r by blast
qed

lemma rnd_error:
  assumes "\<bar>x\<bar> < 2 powi (k + 1)" "- 126 \<le> k" "k \<le> 126"
  shows "\<exists>r. rnd x = Fin r \<and> \<bar>r - x\<bar> \<le> 2 powi (k - 24)"
proof -
  consider "x = 0" | "0 < x" | "x < 0" by linarith
  then show ?thesis
  proof cases
    case 1
    then show ?thesis by (simp add: rnd_def powi_pos2 less_imp_le)
  next
    case 2
    with assms show ?thesis by (intro rnd_error_pos) simp_all
  next
    case 3
    with assms rnd_error_pos [of "- x" k] obtain r where
      r: "rnd (- x) = Fin r" "\<bar>r - (- x)\<bar> \<le> 2 powi (k - 24)" by auto
    have "rnd x = fneg (rnd (- x))" using rnd_uminus [of "- x"] by simp
    then have "rnd x = Fin (- r)" by (simp add: r(1))
    moreover have "\<bar>- r - x\<bar> = \<bar>r - (- x)\<bar>" by (simp add: abs_minus_commute)
    ultimately show ?thesis using r(2) by auto
  qed
qed

section \<open>Properties of the simulation\<close>

lemma day_loop_bounds:
  "days \<le> MAX_DAYS \<Longrightarrow> int iters \<le> days \<Longrightarrow>
   days \<le> fst (day_loop dailyMul remaining dailyExpense days iters) \<and>
   fst (day_loop dailyMul remaining dailyExpense days iters) \<le> MAX_DAYS \<and>
   int (snd (day_loop dailyMul remaining dailyExpense days iters)) \<le> MAX_DAYS"
proof (induction dailyMul remaining dailyExpense days iters rule: day_loop.induct)
  case (1 dailyMul remaining dailyExpense days iters)
  show ?case
  proof (cases "days < MAX_DAYS")
    case False
    with "1.prems" show ?thesis by (subst (1 2 3) day_loop.simps) simp
  next
    case inside: True
    show ?thesis
    proof (cases "flt remaining dailyExpense")
      case True
      with inside "1.prems" show ?thesis by (subst (1 2 3) day_loop.simps) simp
    next
      case False
      have "days + 1 \<le> MAX_DAYS" "int (iters + 1) \<le> days + 1"
        using inside "1.prems" by simp_all
      from "1.IH" [OF inside False this] inside False show ?thesis
        by (subst (1 2 3) day_loop.simps) simp
    qed
  qed
qed

lemma days_to_longevity_ranges:
  assumes "0 \<le> days"
  shows "outYears (days_to_longevity days) = days div 365"
    and "0 \<le> outMonths (days_to_longevity days)"
    and "outMonths (days_to_longevity days) \<le> 12"
    and "0 \<le> outWeeks (days_to_longevity days)"
    and "outWeeks (days_to_longevity days) \<le> 4"
proof -
  have r: "days smod 365 = days mod 365"
    using assms by (simp add: signed_modulo_int_def sgn_if)
  have y: "days sdiv 365 = days div 365"
    using assms by (simp add: signed_divide_int_def sgn_if)
  have r0: "0 \<le> days mod 365" "days mod 365 < 365"
    by simp_all
  have m: "(days mod 365) sdiv 30 = (days mod 365) div 30"
    using r0 by (simp add: signed_divide_int_def sgn_if)
  have r2: "(days mod 365) smod 30 = (days mod 365) mod 30"
    using r0 by (simp add: signed_modulo_int_def sgn_if)
  have r3: "0 \<le> (days mod 365) mod 30" "(days mod 365) mod 30 < 30"
    by simp_all
  have w: "((days mod 365) mod 30) sdiv 7 = ((days mod 365) mod 30) div 7"
    using r3 by (simp add: signed_divide_int_def sgn_if)
  show "outYears (days_to_longevity days) = days div 365"
    by (simp add: days_to_longevity_def Let_def y)
  show "0 \<le> outMonths (days_to_longevity days)"
    using r0 by (simp add: days_to_longevity_def Let_def r m)
  show "outMonths (days_to_longevity days) \<le> 12"
    using r0 by (simp add: days_to_longevity_def Let_def r m)
  show "0 \<le> outWeeks (days_to_longevity days)"
    using r3 by (simp add: days_to_longevity_def Let_def r r2 w)
  show "outWeeks (days_to_longevity days) \<le> 4"
    using r3 by (simp add: days_to_longevity_def Let_def r r2 w)
qed

lemma flt_zero_not_fle: "flt (Fin 0) x \<Longrightarrow> \<not> fle x (Fin 0)"
  by (cases x) simp_all

lemma day_loop_ref:
  "0 \<le> days \<Longrightarrow> days \<le> MAX_DAYS \<Longrightarrow> n = nat (MAX_DAYS - days) \<Longrightarrow>
   fst (day_loop dailyMul remaining expense days iters) =
     days + int (ref_days n dailyMul remaining expense)"
proof (induction n arbitrary: days remaining expense iters)
  case 0
  then have "\<not> days < MAX_DAYS" by simp
  then show ?case by (subst day_loop.simps) simp
next
  case (Suc n)
  then have inside: "days < MAX_DAYS" by simp
  show ?case
  proof (cases "flt remaining expense")
    case True
    with inside show ?thesis by (subst day_loop.simps) simp
  next
    case False
    have "fst (day_loop dailyMul (fsub remaining expense) (fmul expense dailyMul) (days + 1) (iters + 1)) =
          days + 1 + int (ref_days n dailyMul (fsub remaining expense) (fmul expense dailyMul))"
      using Suc.prems by (intro Suc.IH) simp_all
    with inside False show ?thesis by (subst day_loop.simps) simp
  qed
qed

lemma days_to_longevity_ref: "days_to_longevity (int n) = ref_convert n"
proof -
  have "int n sdiv 365 = int n div 365" "int n smod 365 = int n mod 365"
    by (simp_all add: signed_divide_int_def signed_modulo_int_def sgn_if)
  moreover have "int (n mod 365) sdiv 30 = int (n mod 365) div 30"
    "int (n mod 365) smod 30 = int (n mod 365) mod 30"
    by (simp_all add: signed_divide_int_def signed_modulo_int_def sgn_if)
  moreover have "int (n mod 365 mod 30) sdiv 7 = int (n mod 365 mod 30) div 7"
    by (simp add: signed_divide_int_def sgn_if)
  ultimately show ?thesis
    by (simp add: days_to_longevity_def ref_convert_def Let_def zdiv_int zmod_int)
qed

lemma longevity_eq_reference:
  assumes "\<not> (fle w (Fin 0) \<or> fle m (Fin 0))"
  shows "computeLongevityWithInflation powf w m r = reference_capped powf w m r"
proof -
  define mul where "mul = ref_daily_mul powf r"
  define res where "res = day_loop mul w (fdiv m (Fin 30)) 0 0"
  have "fst res = 0 + int (ref_days (nat (MAX_DAYS - 0)) mul w (fdiv m (Fin 30)))"
    unfolding res_def by (rule day_loop_ref) (simp_all add: MAX_DAYS_def)
  then have days: "fst res = int (ref_days (365 * 200) mul w (fdiv m (Fin 30)))"
    by (simp add: MAX_DAYS_def)
  have "computeLongevityWithInflation powf w m r = days_to_longevity (fst res)"
    using assms
    by (simp add: computeLongevityWithInflation_def computeLongevity_run_def Let_def
        res_def mul_def ref_daily_mul_def split: prod.splits)
  then show ?thesis
    by (simp add: days days_to_longevity_ref reference_capped_def mul_def)
qed

lemma ref_days_countdown:
  "k < 2 ^ 24 \<Longrightarrow> ref_days b (Fin 1) (Fin (of_nat k)) (Fin 1) = min b k"
proof (induction b arbitrary: k)
  case 0
  then show ?case by simp
next
  case (Suc b)
  show ?case
  proof (cases k)
    case 0
    then show ?thesis by simp
  next
    case (Suc j)
    have "fsub (Fin (of_nat (Suc j))) (Fin 1) = Fin (of_nat j)"
      using Suc.prems Suc by (simp add: fsub_def rnd_of_nat)
    moreover have "ref_days b (Fin 1) (Fin (of_nat j)) (Fin 1) = min b j"
      using Suc.prems Suc by (intro Suc.IH) simp
    ultimately show ?thesis
      using Suc by (simp add: rnd_one del: of_nat_Suc)
  qed
qed

lemma ref_days_unbounded_countdown:
  "k < 2 ^ 24 \<Longrightarrow> ref_days_unbounded (Fin 1) (Fin (of_nat k)) (Fin 1) n = Some (n + k)"
proof (induction k arbitrary: n)
  case 0
  then show ?case by (subst ref_days_unbounded.simps) simp
next
  case (Suc k)
  have "fsub (Fin (of_nat (Suc k))) (Fin 1) = Fin (of_nat k)"
    using Suc.prems by (simp add: fsub_def rnd_of_nat)
  moreover have "ref_days_unbounded (Fin 1) (Fin (of_nat k)) (Fin 1) (Suc n) = Some (Suc n + k)"
    using Suc.prems by (intro Suc.IH) simp
  ultimately show ?case
    by (subst ref_days_unbounded.simps) (simp add: rnd_one del: of_nat_Suc)
qed

lemma ref_days_stuck:
  "\<not> flt remaining expense \<Longrightarrow> fsub remaining expense = remaining \<Longrightarrow>
   fmul expense dailyMul = expense \<Longrightarrow> ref_days b dailyMul remaining expense = b"
  by (induction b) simp_all

lemma unit_daily_mul: "ref_daily_mul powf_unit_base (Fin 0) = Fin 1"
  by (simp add: ref_daily_mul_def powf_unit_base_def rnd_one)

lemma unit_daily_expense: "fdiv (Fin 30) (Fin 30) = Fin 1"
  by (simp add: rnd_one)

text \<open>
  With a daily expense of 1 and no inflation every value of the run is a small integer,
  and the days counted are the wealth, up to the cap.
\<close>

lemma unit_expense_run:
  assumes "k < 2 ^ 24"
  shows "computeLongevityWithInflation powf_unit_base (Fin (of_nat k)) (Fin 30) (Fin 0) =
    (if k = 0 then \<lparr>outYears = 0, outMonths = 0, outWeeks = 0\<rparr>
     else ref_convert (min (365 * 200) k))"
proof (cases "k = 0")
  case True
  then show ?thesis
    by (simp add: computeLongevityWithInflation_def computeLongevity_run_def)
next
  case False
  then have "\<not> (fle (Fin (of_nat k)) (Fin 0) \<or> fle (Fin 30) (Fin 0))" by simp
  then have "computeLongevityWithInflation powf_unit_base (Fin (of_nat k)) (Fin 30) (Fin 0) =
      reference_capped powf_unit_base (Fin (of_nat k)) (Fin 30) (Fin 0)"
    by (rule longevity_eq_reference)
  with False assms show ?thesis
    by (simp add: reference_capped_def unit_daily_mul unit_daily_expense ref_days_countdown
        del: fdiv.simps)
qed

lemma unit_expense_unbounded:
  assumes "k < 2 ^ 24"
  shows "reference_unbounded powf_unit_base (Fin (of_nat k)) (Fin 30) (Fin 0) =
    Some (ref_convert k)"
  using assms
  by (simp add: reference_unbounded_def unit_daily_mul unit_daily_expense
      ref_days_unbounded_countdown del: fdiv.simps)

lemma rnd_1e12: "rnd (1000000000000) = Fin (999999995904)"
  by (rule rnd_eval [where e = 39 and m = 15258789]) simp_all

lemma rnd_cent: "rnd (1 / 100) = Fin (5368709 / 536870912)"
  by (rule rnd_eval [where e = "- 7" and m = 10737418]) simp_all

lemma ex_daily: "rnd (5368709 / 16106127360) = Fin (5726623 / 17179869184)"
  by (rule rnd_eval [where e = "- 12" and m = 11453246]) simp_all

lemma ex_sub: "rnd (17179869113631250095713 / 17179869184) = Fin (999999995904)"
  by (rule rnd_eval [where e = 39 and m = 15258789]) simp_all

lemma ex_mul: "rnd (5726623 / 17179869184) = Fin (5726623 / 17179869184)"
  by (rule rnd_eval [where e = "- 12" and m = 11453246]) simp_all

text \<open>
  The extreme input of the specification: a wealth of \<open>1e12\<close> against a monthly expense
  of \<open>0.01\<close>. The daily expense is too small to change the wealth when subtracted, so
  the loop runs into the cap.
\<close>

lemma longevity_extreme_input:
  "computeLongevityWithInflation powf_unit_base (rnd (10 ^ 12)) (rnd (1 / 100)) (Fin 0) =
     \<lparr>outYears = 200, outMonths = 0, outWeeks = 0\<rparr>"
proof -
  have d: "fdiv (rnd (1 / 100)) (Fin 30) = Fin (5726623 / 17179869184)"
    by (simp add: rnd_cent ex_daily)
  have "ref_days (365 * 200) (Fin 1) (Fin 999999995904) (Fin (5726623 / 17179869184)) = 365 * 200"
    by (rule ref_days_stuck) (simp_all add: fsub_def ex_sub ex_mul)
  then have "reference_capped powf_unit_base (rnd (10 ^ 12)) (rnd (1 / 100)) (Fin 0) =
      \<lparr>outYears = 200, outMonths = 0, outWeeks = 0\<rparr>"
    using d by (simp add: reference_capped_def unit_daily_mul rnd_1e12 ref_convert_def del: fdiv.simps)
  moreover have "computeLongevityWithInflation powf_unit_base (rnd (10 ^ 12)) (rnd (1 / 100)) (Fin 0) =
      reference_capped powf_unit_base (rnd (10 ^ 12)) (rnd (1 / 100)) (Fin 0)"
    by (rule longevity_eq_reference) (simp add: rnd_1e12 rnd_cent)
  ultimately show ?thesis by simp
qed

subsection \<open>The claims about the simulation\<close>

text \<open>
  C1, as amended. For wealth and monthly expense above 0 the function returns what the
  reference algorithm of the specification returns when the day loop is bounded by the cap
  of 365 times 200 days: negative inflation clamped to 0, the daily multiplier
  \<open>(1 + r)\<close> to the power \<open>1 / 365\<close>, the daily expense a thirtieth of the monthly one,
  a day counted for each subtraction, and the days split into years of 365, months of 30
  and weeks of 7 days.
\<close>

theorem longevity_refines_capped_reference:
  "flt (Fin 0) w \<Longrightarrow> flt (Fin 0) m \<Longrightarrow>
   computeLongevityWithInflation powf w m r = reference_capped powf w m r"
  by (rule longevity_eq_reference) (simp add: flt_zero_not_fle)

theorem longevity_refines_capped_reference_witness:
  "flt (Fin 0) (Fin 45) \<and> flt (Fin 0) (Fin 30) \<and>
   computeLongevityWithInflation powf_unit_base (Fin 45) (Fin 30) (Fin 0) =
     reference_capped powf_unit_base (Fin 45) (Fin 30) (Fin 0) \<and>
   computeLongevityWithInflation powf_unit_base (Fin 45) (Fin 30) (Fin 0) =
     \<lparr>outYears = 0, outMonths = 1, outWeeks = 2\<rparr>"
proof -
  have "computeLongevityWithInflation powf_unit_base (Fin 45) (Fin 30) (Fin 0) =
     reference_capped powf_unit_base (Fin 45) (Fin 30) (Fin 0)"
    using longevity_refines_capped_reference [of "Fin 45" "Fin 30" powf_unit_base "Fin 0"]
    by simp
  moreover have "computeLongevityWithInflation powf_unit_base (Fin 45) (Fin 30) (Fin 0) =
     \<lparr>outYears = 0, outMonths = 1, outWeeks = 2\<rparr>"
    using unit_expense_run [of 45] by (simp add: ref_convert_def)
  ultimately show ?thesis by simp
qed

text \<open>
  C1 as stated, with no bound on the days, fails: for a wealth of 73030, a monthly
  expense of 30 and no inflation the function stops at the cap of 73000 days and returns
  200 years, while the unbounded algorithm counts 73030 days, 200 years and one month.
\<close>

theorem longevity_unbounded_reference_differs:
  "computeLongevityWithInflation powf_unit_base (Fin 73030) (Fin 30) (Fin 0) =
     \<lparr>outYears = 200, outMonths = 0, outWeeks = 0\<rparr> \<and>
   reference_unbounded powf_unit_base (Fin 73030) (Fin 30) (Fin 0) =
     Some \<lparr>outYears = 200, outMonths = 1, outWeeks = 0\<rparr>"
  using unit_expense_run [of 73030] unit_expense_unbounded [of 73030]
  by (simp add: ref_convert_def)

text \<open>
  C2, as amended. For every input the years are at least 0, the months lie between 0 and
  12 and the weeks between 0 and 4.
\<close>

theorem longevity_ranges:
  "0 \<le> outYears (computeLongevityWithInflation powf w m r) \<and>
   0 \<le> outMonths (computeLongevityWithInflation powf w m r) \<and>
   outMonths (computeLongevityWithInflation powf w m r) \<le> 12 \<and>
   0 \<le> outWeeks (computeLongevityWithInflation powf w m r) \<and>
   outWeeks (computeLongevityWithInflation powf w m r) \<le> 4"
proof (cases "fle w (Fin 0) \<or> fle m (Fin 0)")
  case True
  then show ?thesis
    by (simp add: computeLongevityWithInflation_def computeLongevity_run_def)
next
  case False
  define r' where "r' = (if flt r (Fin 0) then Fin 0 else r)"
  define res where
    "res = day_loop (powf (fadd (Fin 1) r') (fdiv (Fin 1) (Fin 365))) w (fdiv m (Fin 30)) 0 0"
  have run: "computeLongevityWithInflation powf w m r = days_to_longevity (fst res)"
    using False
    by (simp add: computeLongevityWithInflation_def computeLongevity_run_def Let_def
        r'_def res_def split: prod.splits)
  have b: "0 \<le> fst res"
    using day_loop_bounds [of 0 0] by (simp_all add: res_def MAX_DAYS_def)
  have "0 \<le> fst res div 365" using b by simp
  with days_to_longevity_ranges [OF b] show ?thesis
    by (simp add: run)
qed

text \<open>
  C2 as stated, with months at most 11, fails: a wealth of 360 with a monthly expense of
  30 and no inflation lasts 360 days, which the conversion reports as 0 years and 12
  months, since a year has 365 days and a month 30.
\<close>

theorem longevity_months_twelve:
  "computeLongevityWithInflation powf_unit_base (Fin 360) (Fin 30) (Fin 0) =
     \<lparr>outYears = 0, outMonths = 12, outWeeks = 0\<rparr> \<and>
   \<not> outMonths (computeLongevityWithInflation powf_unit_base (Fin 360) (Fin 30) (Fin 0)) \<le> 11"
  using unit_expense_run [of 360] by (simp add: ref_convert_def)

lemma longevity_bounds:
  "snd (computeLongevity_run powf w m r) \<le> 365 * 200 \<and>
   outYears (computeLongevityWithInflation powf w m r) \<le> 200"
proof (cases "fle w (Fin 0) \<or> fle m (Fin 0)")
  case True
  then show ?thesis
    by (simp add: computeLongevityWithInflation_def computeLongevity_run_def)
next
  case False
  define r' where "r' = (if flt r (Fin 0) then Fin 0 else r)"
  define res where
    "res = day_loop (powf (fadd (Fin 1) r') (fdiv (Fin 1) (Fin 365))) w (fdiv m (Fin 30)) 0 0"
  have run: "computeLongevity_run powf w m r = (days_to_longevity (fst res), snd res)"
    using False
    by (simp add: computeLongevity_run_def Let_def r'_def res_def split: prod.splits)
  have b: "0 \<le> fst res" "fst res \<le> MAX_DAYS" "int (snd res) \<le> MAX_DAYS"
    using day_loop_bounds [of 0 0] by (simp_all add: res_def MAX_DAYS_def)
  have "outYears (days_to_longevity (fst res)) = fst res div 365"
    using b(1) by (rule days_to_longevity_ranges)
  also have "\<dots> \<le> 200" using b(2) by (simp add: MAX_DAYS_def)
  finally show ?thesis
    using b(3) by (simp add: run computeLongevityWithInflation_def MAX_DAYS_def)
qed

text \<open>
  C3. The function is total: its loop is defined by a recursion whose termination is
  proved above. For every input the loop body runs at most 365 times 200 times, and the
  years of the result are at most 200. For the extreme input named by the specification
  the result is exactly 200 years.
\<close>

theorem longevity_loop_bounded:
  "snd (computeLongevity_run powf w m r) \<le> 365 * 200 \<and>
   outYears (computeLongevityWithInflation powf w m r) \<le> 200 \<and>
   computeLongevityWithInflation powf_unit_base (rnd (10 ^ 12)) (rnd (1 / 100)) (Fin 0) =
     \<lparr>outYears = 200, outMonths = 0, outWeeks = 0\<rparr>"
  using longevity_bounds [of powf w m r] longevity_extreme_input by simp

text \<open>
  C4. When the wealth is at most 0, or the monthly expense is at most 0, the result is
  0 years, 0 months and 0 weeks, whatever the inflation rate.
\<close>

theorem longevity_zero_guard:
  "fle w (Fin 0) \<or> fle m (Fin 0) \<Longrightarrow>
   computeLongevityWithInflation powf w m r = \<lparr>outYears = 0, outMonths = 0, outWeeks = 0\<rparr>"
  by (simp add: computeLongevityWithInflation_def computeLongevity_run_def)

theorem longevity_zero_guard_witness:
  "fle (Fin 0) (Fin 0) \<and>
   computeLongevityWithInflation powf_unit_base (Fin 0) (Fin 10000) (Fin (1 / 64)) =
     \<lparr>outYears = 0, outMonths = 0, outWeeks = 0\<rparr> \<and>
   fle (Fin (- 5)) (Fin 0) \<and>
   computeLongevityWithInflation powf_unit_base (Fin 250000) (Fin (- 5)) (Fin 0) =
     \<lparr>outYears = 0, outMonths = 0, outWeeks = 0\<rparr>"
  using longevity_zero_guard [of "Fin 0" "Fin 10000" powf_unit_base "Fin (1 / 64)"]
    longevity_zero_guard [of "Fin 250000" "Fin (- 5)" powf_unit_base "Fin 0"]
  by simp

section \<open>Properties of the utilities\<close>

lemma clampNonNegative_not_negative: "\<not> flt (clampNonNegative v) (Fin 0)"
  by (simp add: clampNonNegative_def)

lemma parseFloatSafe_not_negative: "\<not> flt (parseFloatSafe strtof s) (Fin 0)"
  by (simp add: parseFloatSafe_def clampNonNegative_not_negative split: option.splits prod.splits)

lemma parseFloatSafe_null: "parseFloatSafe strtof None = Fin 0"
  by (simp add: parseFloatSafe_def)

lemma parseFloatSafe_empty: "parseFloatSafe strtof (Some []) = Fin 0"
  by (simp add: parseFloatSafe_def)

lemma strtof_c_abc: "strtof_c ''abc'' = (Fin 0, 0)"
  by code_simp

lemma strtof_c_minus_5: "strtof_c ''-5'' = (Fin (- 5), 2)"
  by code_simp

lemma strtof_c_42_5: "strtof_c ''42.5'' = (Fin (85 / 2), 4)"
  by code_simp

lemma strtof_c_sentinel: "strtof_c ''--'' = (Fin 0, 0)"
  by code_simp

lemma strtof_c_nan: "strtof_c ''nan'' = (NaN, 3)"
  by code_simp

lemma parseFloatSafe_examples:
  "parseFloatSafe strtof_c (Some ''abc'') = Fin 0"
  "parseFloatSafe strtof_c (Some ''-5'') = Fin 0"
  "parseFloatSafe strtof_c (Some ''42.5'') = Fin (85 / 2)"
  "parseFloatSafe strtof_c (Some ''--'') = Fin 0"
  by (simp_all add: parseFloatSafe_def clampNonNegative_def
      strtof_c_abc strtof_c_minus_5 strtof_c_42_5 strtof_c_sentinel)

text \<open>
  C6. The function is total, never returns a negative value, and returns 0 for a null
  pointer, the empty string, \<open>abc\<close> and \<open>-5\<close>, and 42.5 for \<open>42.5\<close> (the lemmas
  above). It does not return a value of at least 0 for every string: \<^verbatim>\<open>strtof\<close> reads
  \<open>nan\<close> as a NaN, which the clamp lets through, and a NaN is not at least 0.
\<close>

theorem parseFloatSafe_nan_input:
  "parseFloatSafe strtof_c (Some ''nan'') = NaN \<and>
   \<not> fle (Fin 0) (parseFloatSafe strtof_c (Some ''nan''))"
  by (simp add: parseFloatSafe_def clampNonNegative_def strtof_c_nan)

section \<open>Properties of the battery helpers\<close>

lemma rnd_320: "rnd (320 / 100) = Fin (13421773 / 4194304)"
  by (rule rnd_eval [where e = 1 and m = 13421773]) simp_all

lemma rnd_330: "rnd (330 / 100) = Fin (13841203 / 4194304)"
  by (rule rnd_eval [where e = 1 and m = 13841203]) simp_all

lemma rnd_360: "rnd (360 / 100) = Fin (7549747 / 2097152)"
  by (rule rnd_eval [where e = 1 and m = 15099494]) simp_all

lemma rnd_375: "rnd (375 / 100) = Fin (15 / 4)"
  by (rule rnd_eval [where e = 1 and m = 15728640]) simp_all

lemma rnd_385: "rnd (385 / 100) = Fin (8074035 / 2097152)"
  by (rule rnd_eval [where e = 1 and m = 16148070]) simp_all

lemma rnd_395: "rnd (395 / 100) = Fin (16567501 / 4194304)"
  by (rule rnd_eval [where e = 1 and m = 16567501]) simp_all

lemma rnd_405: "rnd (405 / 100) = Fin (4246733 / 1048576)"
  by (rule rnd_eval [where e = 2 and m = 8493466]) simp_all

lemma rnd_415: "rnd (415 / 100) = Fin (8703181 / 2097152)"
  by (rule rnd_eval [where e = 2 and m = 8703181]) simp_all

lemma voltTable_values:
  "voltTable =
     [Fin (13421773 / 4194304), Fin (13841203 / 4194304), Fin (7549747 / 2097152),
      Fin (15 / 4), Fin (8074035 / 2097152), Fin (16567501 / 4194304),
      Fin (4246733 / 1048576), Fin (8703181 / 2097152)]"
  by (simp only: voltTable_def rnd_320 rnd_330 rnd_360 rnd_375 rnd_385 rnd_395 rnd_405 rnd_415)

lemma voltTable_voltq: "voltTable = map Fin voltq"
  by (simp add: voltTable_values voltq_def)

lemma length_voltq: "length voltq = 8"
  by (simp add: voltq_def)

lemma voltTable_nth: "i < 8 \<Longrightarrow> voltTable ! i = Fin (voltq ! i)"
  by (simp add: voltTable_voltq length_voltq)

lemma voltq_sorted: "sorted voltq"
  by (simp add: voltq_def)

lemma voltq_mono: "i \<le> j \<Longrightarrow> j < 8 \<Longrightarrow> voltq ! i \<le> voltq ! j"
  using voltq_sorted length_voltq by (simp add: sorted_iff_nth_mono)

lemma index_below_7: "i < 7 \<Longrightarrow> i \<in> {0, 1, 2, 3, 4, 5, 6 :: nat}"
  by auto

lemma index_below_8: "i < 8 \<Longrightarrow> i \<in> {0, 1, 2, 3, 4, 5, 6, 7 :: nat}"
  by auto

lemma voltq_gap: "i < 7 \<Longrightarrow> 1 / 16 \<le> voltq ! (i + 1) - voltq ! i \<and> voltq ! (i + 1) - voltq ! i \<le> 1"
  using index_below_7 [of i] by (auto simp add: voltq_def)

lemma voltq_range: "i < 8 \<Longrightarrow> 3 \<le> voltq ! i \<and> voltq ! i \<le> 5"
  using index_below_8 [of i] by (auto simp add: voltq_def)

lemma socTable_range: "i < 8 \<Longrightarrow> 0 \<le> socTable ! i \<and> socTable ! i \<le> 100"
  using index_below_8 [of i] by (auto simp add: socTable_def)

lemma socTable_step: "i < 7 \<Longrightarrow> 0 < socTable ! (i + 1) - socTable ! i \<and> socTable ! (i + 1) - socTable ! i \<le> 25"
  using index_below_7 [of i] by (auto simp add: socTable_def)

lemma rnd_not_NaN: "rnd x \<noteq> NaN"
  by (simp add: rnd_def Let_def)

lemma rnd_sixteenth: "rnd (1 / 16) = Fin (1 / 16)"
  using rnd_exact_pos [of "1 / 16" 1 "- 4"] by simp

lemma rnd_half: "rnd (1 / 2) = Fin (1 / 2)"
  using rnd_exact_pos [of "1 / 2" 1 "- 1"] by simp

lemma rnd_201_halves: "rnd (201 / 2) = Fin (201 / 2)"
  using rnd_exact_pos [of "201 / 2" 201 "- 1"] by simp

text \<open>Rounding keeps a number between two numbers that rounding does not change.\<close>

lemma rnd_between:
  assumes "rnd lo = Fin lo" "rnd hi = Fin hi" "lo \<le> x" "x \<le> hi"
  shows "\<exists>r. rnd x = Fin r \<and> lo \<le> r \<and> r \<le> hi"
proof -
  have "fle (Fin lo) (rnd x)" "fle (rnd x) (Fin hi)"
    using rnd_mono [OF assms(3)] rnd_mono [OF assms(4)] by (simp_all add: assms(1,2))
  then show ?thesis by (cases "rnd x") simp_all
qed

lemma f32_of_int_small: "\<bar>n\<bar> < 2 ^ 24 \<Longrightarrow> f32_of_int n = Fin (of_int n)"
  by (simp add: f32_of_int_def rnd_of_int)

lemma clamp_percent:
  assumes "x \<noteq> NaN"
  shows "\<exists>s. (if fgt (if flt x (f32_of_int 0) then f32_of_int 0 else x) (f32_of_int 100)
              then f32_of_int 100
              else (if flt x (f32_of_int 0) then f32_of_int 0 else x)) = Fin s \<and>
             0 \<le> s \<and> s \<le> 100"
  using assms by (cases x) (simp_all add: f32_of_int_small fgt_def)

lemma fadd_not_NaN: "y \<noteq> NaN \<Longrightarrow> fadd (Fin a) y \<noteq> NaN"
  by (cases y) (simp_all add: rnd_not_NaN)

lemma fmul_not_NaN: "x \<noteq> NaN \<Longrightarrow> b \<noteq> 0 \<Longrightarrow> fmul x (Fin b) \<noteq> NaN"
  by (cases x) (simp_all add: rnd_not_NaN finf_def)

lemma fdiv_not_NaN: "x \<noteq> NaN \<Longrightarrow> b \<noteq> 0 \<Longrightarrow> fdiv x (Fin b) \<noteq> NaN"
  by (cases x) (simp_all add: rnd_not_NaN finf_def)

lemma segment_soc_range:
  assumes "i < 7"
  shows "\<exists>s. segment_soc (Fin q) i = Fin s \<and> 0 \<le> s \<and> s \<le> 100"
proof -
  have v1: "voltTable ! i = Fin (voltq ! i)" and v2: "voltTable ! (i + 1) = Fin (voltq ! (i + 1))"
    using assms by (simp_all add: voltTable_nth)
  from voltq_gap [OF assms] rnd_between [OF rnd_sixteenth rnd_one]
  obtain d where d: "rnd (voltq ! (i + 1) - voltq ! i) = Fin d" "1 / 16 \<le> d"
    by blast
  have den: "fsub (voltTable ! (i + 1)) (voltTable ! i) = Fin d"
    unfolding v1 v2 using d(1) by (simp add: fsub_def)
  have num: "fsub (Fin q) (voltTable ! i) \<noteq> NaN"
    by (simp add: v1 fsub_def rnd_not_NaN)
  have t: "fdiv (fsub (Fin q) (voltTable ! i)) (fsub (voltTable ! (i + 1)) (voltTable ! i)) \<noteq> NaN"
    unfolding den using num d(2) by (intro fdiv_not_NaN) simp_all
  have step: "f32_of_int (socTable ! (i + 1) - socTable ! i) = Fin (of_int (socTable ! (i + 1) - socTable ! i))"
    using socTable_step [OF assms] by (intro f32_of_int_small) simp
  have base: "f32_of_int (socTable ! i) = Fin (of_int (socTable ! i))"
    using socTable_range [of i] assms by (intro f32_of_int_small) simp
  have nn: "fadd (f32_of_int (socTable ! i))
          (fmul (fdiv (fsub (Fin q) (voltTable ! i)) (fsub (voltTable ! (i + 1)) (voltTable ! i)))
             (f32_of_int (socTable ! (i + 1) - socTable ! i))) \<noteq> NaN"
    unfolding step base using t socTable_step [OF assms]
    by (intro fadd_not_NaN fmul_not_NaN) simp_all
  show ?thesis
    unfolding segment_soc_def Let_def by (rule clamp_percent) (rule nn)
qed

lemma round_percent:
  assumes "0 \<le> s" "s \<le> 100"
  shows "\<exists>p. int_of_f32 (fadd (Fin s) (Fin (1 / 2))) = Some p \<and> 0 \<le> p \<and> p \<le> 100"
proof -
  from rnd_between [OF rnd_half rnd_201_halves, of "s + 1 / 2"] assms
  obtain w where w: "rnd (s + 1 / 2) = Fin w" "1 / 2 \<le> w" "w \<le> 201 / 2" by auto
  have "0 \<le> \<lfloor>w\<rfloor>" using w(2) by simp
  moreover have "\<lfloor>w\<rfloor> \<le> 100"
  proof -
    have "w < of_int 101" using w(3) by simp
    then have "\<lfloor>w\<rfloor> < 101" by (simp only: floor_less_iff)
    then show ?thesis by simp
  qed
  ultimately show ?thesis using w(2) by (simp add: w(1) trunc_rat_def Let_def)
qed

lemma battery_scan_total:
  "\<exists>p. battery_scan v i = Some p \<and> 0 \<le> p \<and> p \<le> 100"
proof (induction v i rule: battery_scan.induct)
  case (1 v i)
  show ?case
  proof (cases "i < NUM_POINTS - 1")
    case False
    then show ?thesis by (subst battery_scan.simps) simp
  next
    case inside: True
    then have i: "i < 7" by (simp add: NUM_POINTS_def)
    show ?thesis
    proof (cases "fge v (voltTable ! i) \<and> fle v (voltTable ! (i + 1))")
      case True
      then obtain q where q: "v = Fin q"
        using i by (cases v) (simp_all add: voltTable_nth fge_def)
      from segment_soc_range [OF i, of q] obtain s where
        s: "segment_soc (Fin q) i = Fin s" "0 \<le> s" "s \<le> 100" by blast
      from round_percent [OF s(2,3)] inside True show ?thesis
        by (subst battery_scan.simps) (simp add: q s(1) del: fadd.simps int_of_f32.simps)
    next
      case False
      with "1.IH" [OF inside] inside show ?thesis
        by (subst battery_scan.simps) auto
    qed
  qed
qed

lemma batteryPercent_total:
  "\<exists>p. batteryPercentFromVoltage v = Some p \<and> 0 \<le> p \<and> p \<le> 100"
  using battery_scan_total [of v 0]
  by (simp add: batteryPercentFromVoltage_def socTable_def NUM_POINTS_def)

lemma battery_scan_finds:
  assumes "i < 7" "voltq ! i < q" "q \<le> voltq ! (i + 1)" "k = i - j" "j \<le> i"
  shows "battery_scan (Fin q) j = int_of_f32 (fadd (segment_soc (Fin q) i) (Fin (1 / 2)))"
  using assms
proof (induction k arbitrary: j)
  case 0
  then have "j = i" by simp
  with 0 show ?case
    by (subst battery_scan.simps) (simp add: NUM_POINTS_def voltTable_nth fge_def)
next
  case (Suc k)
  then have j: "j + 1 \<le> i" by simp
  with Suc.prems(1) have "voltq ! (j + 1) \<le> voltq ! i" by (intro voltq_mono) simp_all
  with Suc.prems(2) have "\<not> q \<le> voltq ! (j + 1)" by simp
  moreover have "battery_scan (Fin q) (j + 1) =
      int_of_f32 (fadd (segment_soc (Fin q) i) (Fin (1 / 2)))"
    using Suc.prems j by (intro Suc.IH) simp_all
  ultimately show ?case
    using j Suc.prems(1)
    by (subst battery_scan.simps) (simp add: NUM_POINTS_def voltTable_nth)
qed

lemma batteryPercent_segment:
  assumes "i < 7" "flt (voltTable ! i) v" "flt v (voltTable ! (i + 1))"
  shows "batteryPercentFromVoltage v = int_of_f32 (fadd (segment_soc v i) (Fin (1 / 2)))"
proof -
  from assms obtain q where q: "v = Fin q" "voltq ! i < q" "q < voltq ! (i + 1)"
    by (cases v) (simp_all add: voltTable_nth)
  have "voltq ! 0 \<le> voltq ! i" "voltq ! (i + 1) \<le> voltq ! 7"
    using assms(1) by (intro voltq_mono; simp)+
  with q have out: "\<not> q \<le> voltq ! 0" "\<not> voltq ! 7 \<le> q" by simp_all
  have "battery_scan (Fin q) 0 = int_of_f32 (fadd (segment_soc (Fin q) i) (Fin (1 / 2)))"
    using assms(1) q(2,3) by (intro battery_scan_finds [where k = i]) simp_all
  with out show ?thesis
    by (simp add: batteryPercentFromVoltage_def q(1) voltTable_nth NUM_POINTS_def fge_def)
qed

lemma cx_num: "rnd (902687 / 4194304) = Fin (902687 / 4194304)"
  by (rule rnd_eval [where e = "- 3" and m = 14442992]) simp_all

lemma cx_den: "rnd (1258291 / 4194304) = Fin (1258291 / 4194304)"
  by (rule rnd_eval [where e = "- 2" and m = 10066328]) simp_all

lemma cx_t: "rnd (902687 / 1258291) = Fin (12035829 / 16777216)"
  by (rule rnd_eval [where e = "- 1" and m = 12035829]) simp_all

lemma cx_p: "rnd (276824067 / 16777216) = Fin (33 / 2)"
  by (rule rnd_eval [where e = 4 and m = 8650752]) simp_all

lemma cx_s: "rnd (37 / 2) = Fin (37 / 2)"
  by (rule rnd_eval [where e = 4 and m = 9699328]) simp_all

lemma cx_q0: "rnd (7371945 / 2097152) = Fin (7371945 / 2097152)"
  by (rule rnd_eval [where e = 1 and m = 14743890]) simp_all

lemma at375_num: "rnd (314573 / 2097152) = Fin (314573 / 2097152)"
  by (rule rnd_eval [where e = "- 3" and m = 10066336]) simp_all

lemma rnd_small_ints:
  "rnd 0 = Fin 0" "rnd 2 = Fin 2" "rnd 19 = Fin 19" "rnd 23 = Fin 23" "rnd 25 = Fin 25"
  "rnd 50 = Fin 50" "rnd 100 = Fin 100"
  using rnd_of_int [of 0] rnd_of_int [of 2] rnd_of_int [of 19] rnd_of_int [of 23]
    rnd_of_int [of 25] rnd_of_int [of 50] rnd_of_int [of 100]
  by simp_all

lemma rnd_101_halves: "rnd (101 / 2) = Fin (101 / 2)"
  using rnd_exact_pos [of "101 / 2" 101 "- 1"] by simp

lemma segment_soc_cx: "segment_soc (Fin (7371945 / 2097152)) 1 = Fin (37 / 2)"
proof -
  have t: "fdiv (fsub (Fin (7371945 / 2097152)) (voltTable ! 1))
             (fsub (voltTable ! (1 + 1)) (voltTable ! 1)) = Fin (12035829 / 16777216)"
    by (simp add: voltTable_values fsub_def cx_num cx_den cx_t)
  have s: "fadd (f32_of_int (socTable ! 1))
             (fmul (Fin (12035829 / 16777216)) (f32_of_int (socTable ! (1 + 1) - socTable ! 1))) =
           Fin (37 / 2)"
    by (simp add: socTable_def f32_of_int_def rnd_small_ints cx_p cx_s)
  show ?thesis
    unfolding segment_soc_def Let_def t s
    by (simp add: f32_of_int_def rnd_small_ints fgt_def)
qed

lemma battery_cx: "batteryPercentFromVoltage (Fin (7371945 / 2097152)) = Some 19"
proof -
  have "batteryPercentFromVoltage (Fin (7371945 / 2097152)) =
      int_of_f32 (fadd (segment_soc (Fin (7371945 / 2097152)) 1) (Fin (1 / 2)))"
    by (rule batteryPercent_segment) (simp_all add: voltTable_values)
  moreover have "int_of_f32 (fadd (Fin (37 / 2)) (Fin (1 / 2))) = Some 19"
    by (simp add: rnd_small_ints trunc_rat_def)
  ultimately show ?thesis
    by (simp only: segment_soc_cx)
qed

lemma spec_cx:
  "nearest_percent (exact_interpolation (7371945 / 2097152) 1) = 18"
proof -
  have e: "exact_interpolation (7371945 / 2097152) 1 = 19398649 / 1048576"
    by (simp add: exact_interpolation_def anchor_volts_def socTable_def)
  have f: "\<lfloor>(19398649 / 1048576 + 1 / 2 :: rat)\<rfloor> = 18"
    by (rule floor_unique) simp_all
  show ?thesis unfolding nearest_percent_def e f by simp
qed

lemma batteryPercent_low:
  assumes "fle v (Fin (320 / 100)) \<or> fle v (voltTable ! 0)"
  shows "batteryPercentFromVoltage v = Some 0"
proof -
  from assms have "fle v (voltTable ! 0)"
    by (cases v) (auto simp add: voltTable_values)
  then show ?thesis by (simp add: batteryPercentFromVoltage_def socTable_def)
qed

lemma batteryPercent_high:
  assumes "fge v (voltTable ! 7) \<or> (is_f32 v \<and> fge v (Fin (415 / 100)))"
  shows "batteryPercentFromVoltage v = Some 100"
proof -
  have ge: "fge v (voltTable ! 7)"
  proof (cases "fge v (voltTable ! 7)")
    case False
    with assms have f: "is_f32 v" "fge v (Fin (415 / 100))" by simp_all
    show ?thesis
    proof (cases v)
      case (Fin q)
      with f have "rnd q = Fin q" "415 / 100 \<le> q" by (simp_all add: is_f32_def fge_def)
      with rnd_mono [of "415 / 100" q] show ?thesis
        by (simp add: Fin fge_def voltTable_def)
    qed (use f in \<open>simp_all add: fge_def voltTable_values\<close>)
  qed simp
  then have "\<not> fle v (voltTable ! 0)"
    by (cases v) (simp_all add: voltTable_values fge_def)
  with ge show ?thesis
    by (simp add: batteryPercentFromVoltage_def socTable_def NUM_POINTS_def)
qed

lemma batteryPercent_375: "batteryPercentFromVoltage (Fin (375 / 100)) = Some 50"
proof -
  have t: "fdiv (fsub (Fin (15 / 4)) (voltTable ! 2)) (fsub (voltTable ! (2 + 1)) (voltTable ! 2)) = Fin 1"
    by (simp add: voltTable_values fsub_def at375_num rnd_one)
  have s: "fadd (f32_of_int (socTable ! 2)) (fmul (Fin 1) (f32_of_int (socTable ! (2 + 1) - socTable ! 2))) = Fin 50"
    by (simp add: socTable_def f32_of_int_def rnd_small_ints)
  have soc: "segment_soc (Fin (15 / 4)) 2 = Fin 50"
    unfolding segment_soc_def Let_def t s
    by (simp add: f32_of_int_def rnd_small_ints fgt_def)
  have scan: "battery_scan (Fin (15 / 4)) 0 = int_of_f32 (fadd (segment_soc (Fin (15 / 4)) 2) (Fin (1 / 2)))"
    by (rule battery_scan_finds [where k = 2]) (simp_all add: voltq_def)
  have "\<lfloor>(101 / 2 :: rat)\<rfloor> = 50"
    by (rule floor_unique) simp_all
  then have "int_of_f32 (fadd (Fin 50) (Fin (1 / 2))) = Some 50"
    by (simp add: rnd_101_halves trunc_rat_def)
  then have "battery_scan (Fin (15 / 4)) 0 = Some 50"
    by (simp only: scan soc)
  then show ?thesis
    by (simp add: batteryPercentFromVoltage_def voltTable_values fge_def NUM_POINTS_def)
qed

subsection \<open>The distance to the exact interpolation\<close>

text \<open>Rounding between two unchanged numbers, with the error.\<close>

lemma rnd_within:
  assumes "rnd lo = Fin lo" "rnd hi = Fin hi" "lo \<le> x" "x \<le> hi"
    and "\<bar>x\<bar> < 2 powi (k + 1)" "- 126 \<le> k" "k \<le> 126"
  shows "\<exists>r. rnd x = Fin r \<and> lo \<le> r \<and> r \<le> hi \<and> \<bar>r - x\<bar> \<le> 2 powi (k - 24)"
  using rnd_between [OF assms(1-4)] rnd_error [OF assms(5-7)] by auto

lemma gap_010: "rnd (209715 / 2097152) = Fin (209715 / 2097152)"
  by (rule rnd_eval [where e = "- 4" and m = 13421760]) simp_all

lemma gap_010b: "rnd (419431 / 4194304) = Fin (419431 / 4194304)"
  by (rule rnd_eval [where e = "- 4" and m = 13421792]) simp_all

lemma voltq_gap_exact:
  "i < 7 \<Longrightarrow> rnd (voltq ! (i + 1) - voltq ! i) = Fin (voltq ! (i + 1) - voltq ! i) \<and>
     voltq ! (i + 1) - voltq ! i < 1 / 2"
  using index_below_7 [of i] gap_010 gap_010b cx_den at375_num
  by (auto simp add: voltq_def)

lemma pw: "(2::rat) powi (- 2 - 24) = 1 / 2 ^ 26" "(2::rat) powi (0 - 24) = 1 / 2 ^ 24"
  "(2::rat) powi (4 - 24) = 1 / 2 ^ 20" "(2::rat) powi (6 - 24) = 1 / 2 ^ 18"
  "(2::rat) powi (- 2 + 1) = 1 / 2" "(2::rat) powi (0 + 1) = 2" "(2::rat) powi (4 + 1) = 32"
  "(2::rat) powi (6 + 1) = 128"
  by (simp_all add: power_int_minus field_simps)

lemma segment_soc_error:
  assumes j: "j < 7" and lo: "voltq ! j \<le> q" and hi: "q \<le> voltq ! (j + 1)"
  shows "\<exists>s. segment_soc (Fin q) j = Fin s \<and> 0 \<le> s \<and> s \<le> 100 \<and>
    \<bar>s - (of_int (socTable ! j) +
        (q - voltq ! j) / (voltq ! (j + 1) - voltq ! j) * of_int (socTable ! (j + 1) - socTable ! j))\<bar>
      \<le> 205 / 2 ^ 24"
proof -
  define V1 where "V1 = voltq ! j"
  define D where "D = voltq ! (j + 1) - voltq ! j"
  define S1 :: rat where "S1 = of_int (socTable ! j)"
  define T :: rat where "T = of_int (socTable ! (j + 1) - socTable ! j)"
  have v1: "voltTable ! j = Fin V1" and v2: "voltTable ! (j + 1) = Fin (V1 + D)"
    using j by (simp_all add: voltTable_nth V1_def D_def)
  have D: "rnd D = Fin D" "D < 1 / 2" "1 / 16 \<le> D"
    using voltq_gap_exact [OF j] voltq_gap [OF j] by (simp_all add: D_def)
  have T: "0 < T" "T \<le> 25" "rnd T = Fin T"
    using socTable_step [OF j] rnd_of_int [of "socTable ! (j + 1) - socTable ! j"]
    by (simp_all add: T_def)
  have S1: "0 \<le> S1" "S1 + T \<le> 100" "rnd S1 = Fin S1" "rnd (S1 + T) = Fin (S1 + T)"
  proof -
    have eq: "S1 + T = of_int (socTable ! (j + 1))" by (simp add: S1_def T_def)
    show "0 \<le> S1" using socTable_range [of j] j by (simp add: S1_def)
    show "S1 + T \<le> 100" unfolding eq using socTable_range [of "j + 1"] j by simp
    show "rnd S1 = Fin S1"
      unfolding S1_def using socTable_range [of j] j by (intro rnd_of_int) simp
    show "rnd (S1 + T) = Fin (S1 + T)"
      unfolding eq using socTable_range [of "j + 1"] j by (intro rnd_of_int) simp
  qed
  have x: "0 \<le> q - V1" "q - V1 \<le> D" using lo hi by (simp_all add: V1_def D_def)
  have "\<exists>r. rnd (q - V1) = Fin r \<and> 0 \<le> r \<and> r \<le> D \<and> \<bar>r - (q - V1)\<bar> \<le> 2 powi (- 2 - 24)"
    using x D by (intro rnd_within) (simp_all add: rnd_small_ints pw)
  then obtain n where n: "rnd (q - V1) = Fin n" "0 \<le> n" "n \<le> D" "\<bar>n - (q - V1)\<bar> \<le> 1 / 2 ^ 26"
    unfolding pw by blast
  have Dpos: "0 < D" using D(3) by simp
  have nD: "0 \<le> n / D" "n / D \<le> 1" using n(2,3) Dpos by simp_all
  have "\<exists>r. rnd (n / D) = Fin r \<and> 0 \<le> r \<and> r \<le> 1 \<and> \<bar>r - n / D\<bar> \<le> 2 powi (0 - 24)"
    using nD by (intro rnd_within) (simp_all add: rnd_small_ints rnd_one pw)
  then obtain t where t: "rnd (n / D) = Fin t" "0 \<le> t" "t \<le> 1" "\<bar>t - n / D\<bar> \<le> 1 / 2 ^ 24"
    unfolding pw by blast
  have tT: "0 \<le> t * T" "t * T \<le> T"
    using t(2,3) T(1) by (simp_all add: mult_left_le_one_le)
  have "\<bar>t * T\<bar> < 2 powi (4 + 1)" unfolding pw using tT T(2) by linarith
  then have "\<exists>r. rnd (t * T) = Fin r \<and> 0 \<le> r \<and> r \<le> T \<and> \<bar>r - t * T\<bar> \<le> 2 powi (4 - 24)"
    using rnd_within [OF rnd_small_ints(1) T(3) tT, of 4] by simp
  then obtain p where p: "rnd (t * T) = Fin p" "0 \<le> p" "p \<le> T" "\<bar>p - t * T\<bar> \<le> 1 / 2 ^ 20"
    unfolding pw by blast
  have "\<bar>S1 + p\<bar> < 2 powi (6 + 1)" unfolding pw using p(2,3) S1(1,2) by linarith
  moreover have "S1 \<le> S1 + p" "S1 + p \<le> S1 + T" using p(2,3) by simp_all
  ultimately have "\<exists>r. rnd (S1 + p) = Fin r \<and> S1 \<le> r \<and> r \<le> S1 + T \<and> \<bar>r - (S1 + p)\<bar> \<le> 2 powi (6 - 24)"
    using rnd_within [OF S1(3,4), of "S1 + p" 6] by simp
  then obtain s where s: "rnd (S1 + p) = Fin s" "S1 \<le> s" "s \<le> S1 + T" "\<bar>s - (S1 + p)\<bar> \<le> 1 / 2 ^ 18"
    unfolding pw by blast
  have e1: "\<bar>n / D - (q - V1) / D\<bar> \<le> 1 / 2 ^ 22"
  proof -
    have "\<bar>n / D - (q - V1) / D\<bar> = \<bar>n - (q - V1)\<bar> / D"
      using Dpos by (simp add: diff_divide_distrib [symmetric])
    also have "\<dots> \<le> (1 / 2 ^ 26) / (1 / 16)"
      using n(4) D(3) by (intro frac_le) simp_all
    finally show ?thesis by simp
  qed
  have e2: "\<bar>t * T - (q - V1) / D * T\<bar> \<le> 125 / 2 ^ 24"
  proof -
    have "\<bar>t - (q - V1) / D\<bar> \<le> 1 / 2 ^ 24 + 1 / 2 ^ 22"
      using t(4) e1 by linarith
    then have "\<bar>t - (q - V1) / D\<bar> * T \<le> (1 / 2 ^ 24 + 1 / 2 ^ 22) * 25"
      using T(1,2) by (intro mult_mono) simp_all
    moreover have "\<bar>t * T - (q - V1) / D * T\<bar> = \<bar>t - (q - V1) / D\<bar> * T"
    proof -
      have "t * T - (q - V1) / D * T = (t - (q - V1) / D) * T"
        by (simp only: left_diff_distrib)
      then show ?thesis
        by (simp only: abs_mult abs_of_pos [OF T(1)])
    qed
    ultimately show ?thesis by simp
  qed
  have err: "\<bar>s - (S1 + (q - V1) / D * T)\<bar> \<le> 205 / 2 ^ 24"
  proof -
    define a where "a = t * T"
    define b where "b = (q - V1) / D * T"
    have "\<bar>s - (S1 + p)\<bar> \<le> 64 / 16777216" "\<bar>p - a\<bar> \<le> 16 / 16777216"
      "\<bar>a - b\<bar> \<le> 125 / 16777216"
      using s(4) p(4) e2 unfolding a_def b_def by simp_all
    then have "\<bar>s - (S1 + b)\<bar> \<le> 205 / 16777216" by linarith
    then show ?thesis unfolding b_def by simp
  qed
  have soc: "fadd (f32_of_int (socTable ! j))
      (fmul (fdiv (fsub (Fin q) (voltTable ! j)) (fsub (voltTable ! (j + 1)) (voltTable ! j)))
         (f32_of_int (socTable ! (j + 1) - socTable ! j))) = Fin s"
    unfolding v1 v2 f32_of_int_def S1_def [symmetric] T_def [symmetric]
    using Dpos by (simp add: fsub_def S1 T D n t p s)
  have rng: "0 \<le> s" "s \<le> 100" using s(2,3) S1(1,2) by simp_all
  have "segment_soc (Fin q) j = Fin s"
    unfolding segment_soc_def Let_def soc using rng
    by (simp add: f32_of_int_def rnd_small_ints fgt_def)
  with rng err show ?thesis
    unfolding S1_def T_def V1_def D_def by blast
qed

lemma affine_bound:
  fixes c :: rat
  assumes "lo \<le> q" "q \<le> hi" "\<bar>c * lo + d\<bar> \<le> e" "\<bar>c * hi + d\<bar> \<le> e"
  shows "\<bar>c * q + d\<bar> \<le> e"
proof (cases "0 \<le> c")
  case True
  then have "c * lo \<le> c * q" "c * q \<le> c * hi"
    using assms(1,2) by (simp_all add: mult_left_mono)
  with assms(3,4) show ?thesis by linarith
next
  case False
  then have "c * hi \<le> c * q" "c * q \<le> c * lo"
    using assms(1,2) by (simp_all add: mult_left_mono_neg)
  with assms(3,4) show ?thesis by linarith
qed

lemma interp_diff_bound:
  fixes q :: rat
  assumes "lo \<le> q" "q \<le> hi"
    and "\<bar>(s1 + (lo - v1) / dv * t1) - (s2 + (lo - a1) / da * t2)\<bar> \<le> e"
    and "\<bar>(s1 + (hi - v1) / dv * t1) - (s2 + (hi - a1) / da * t2)\<bar> \<le> e"
  shows "\<bar>(s1 + (q - v1) / dv * t1) - (s2 + (q - a1) / da * t2)\<bar> \<le> e"
proof -
  define c where "c = t1 / dv - t2 / da"
  define d where "d = s1 - v1 / dv * t1 - s2 + a1 / da * t2"
  have eq: "(s1 + (x - v1) / dv * t1) - (s2 + (x - a1) / da * t2) = c * x + d" for x
    by (simp add: c_def d_def diff_divide_distrib algebra_simps)
  show ?thesis
    using assms unfolding eq by (rule affine_bound)
qed

lemma endpoints_close:
  assumes "i < 7" "j < 7"
    and "max (anchor_volts ! i) (voltq ! j) \<le> min (anchor_volts ! (i + 1)) (voltq ! (j + 1))"
    and "x = max (anchor_volts ! i) (voltq ! j) \<or> x = min (anchor_volts ! (i + 1)) (voltq ! (j + 1))"
  shows "\<bar>(of_int (socTable ! j) +
        (x - voltq ! j) / (voltq ! (j + 1) - voltq ! j) * of_int (socTable ! (j + 1) - socTable ! j))
      - exact_interpolation x i\<bar> \<le> 1 / 50000"
  using index_below_7 [of i] index_below_7 [of j] assms
  by (auto simp add: voltq_def anchor_volts_def socTable_def exact_interpolation_def)

lemma line_close:
  assumes "i < 7" "j < 7" "anchor_volts ! i < q" "q < anchor_volts ! (i + 1)"
    "voltq ! j < q" "q \<le> voltq ! (j + 1)"
  shows "\<bar>(of_int (socTable ! j) +
        (q - voltq ! j) / (voltq ! (j + 1) - voltq ! j) * of_int (socTable ! (j + 1) - socTable ! j))
      - exact_interpolation q i\<bar> \<le> 1 / 50000"
proof -
  define L where "L = max (anchor_volts ! i) (voltq ! j)"
  define H where "H = min (anchor_volts ! (i + 1)) (voltq ! (j + 1))"
  have q: "L \<le> q" "q \<le> H" using assms(3-6) by (simp_all add: L_def H_def)
  then have LH: "L \<le> H" by simp
  show ?thesis
    unfolding exact_interpolation_def
    using q
  proof (rule interp_diff_bound)
    show "\<bar>(of_int (socTable ! j) +
        (L - voltq ! j) / (voltq ! (j + 1) - voltq ! j) * of_int (socTable ! (j + 1) - socTable ! j))
      - (of_int (socTable ! i) +
       (L - anchor_volts ! i) / (anchor_volts ! (i + 1) - anchor_volts ! i) *
         of_int (socTable ! (i + 1) - socTable ! i))\<bar> \<le> 1 / 50000"
      using endpoints_close [OF assms(1,2), of L] LH
      unfolding exact_interpolation_def L_def H_def by blast
    show "\<bar>(of_int (socTable ! j) +
        (H - voltq ! j) / (voltq ! (j + 1) - voltq ! j) * of_int (socTable ! (j + 1) - socTable ! j))
      - (of_int (socTable ! i) +
       (H - anchor_volts ! i) / (anchor_volts ! (i + 1) - anchor_volts ! i) *
         of_int (socTable ! (i + 1) - socTable ! i))\<bar> \<le> 1 / 50000"
      using endpoints_close [OF assms(1,2), of H] LH
      unfolding exact_interpolation_def L_def H_def by blast
  qed
qed

lemma round_percent_error:
  assumes "0 \<le> s" "s \<le> 100"
  shows "\<exists>p. int_of_f32 (fadd (Fin s) (Fin (1 / 2))) = Some p \<and> \<bar>of_int p - s\<bar> \<le> 1 / 2 + 1 / 2 ^ 18"
proof -
  have "\<bar>s + 1 / 2\<bar> < 2 powi (6 + 1)" unfolding pw using assms by linarith
  moreover have "1 / 2 \<le> s + 1 / 2" "s + 1 / 2 \<le> 201 / 2" using assms by simp_all
  ultimately have "\<exists>r. rnd (s + 1 / 2) = Fin r \<and> 1 / 2 \<le> r \<and> r \<le> 201 / 2 \<and>
      \<bar>r - (s + 1 / 2)\<bar> \<le> 2 powi (6 - 24)"
    using rnd_within [OF rnd_half rnd_201_halves, of "s + 1 / 2" 6] by simp
  then obtain w where w: "rnd (s + 1 / 2) = Fin w" "1 / 2 \<le> w" "w \<le> 201 / 2"
      "\<bar>w - (s + 1 / 2)\<bar> \<le> 1 / 2 ^ 18"
    unfolding pw by blast
  have fl: "of_int \<lfloor>w\<rfloor> \<le> w" "w < of_int \<lfloor>w\<rfloor> + 1" by linarith+
  have "0 \<le> \<lfloor>w\<rfloor>" using w(2) by simp
  moreover have "\<lfloor>w\<rfloor> \<le> 100"
  proof -
    have "w < of_int 101" using w(3) by simp
    then have "\<lfloor>w\<rfloor> < 101" by (simp only: floor_less_iff)
    then show ?thesis by simp
  qed
  ultimately have "int_of_f32 (fadd (Fin s) (Fin (1 / 2))) = Some \<lfloor>w\<rfloor>"
    using w(2) by (simp add: w(1) trunc_rat_def Let_def)
  moreover have "\<bar>of_int \<lfloor>w\<rfloor> - s\<bar> \<le> 1 / 2 + 1 / 2 ^ 18"
    using fl w(4) by linarith
  ultimately show ?thesis by blast
qed

lemma voltq_locate:
  assumes "k < 8" "voltq ! 0 < q" "q \<le> voltq ! k"
  shows "\<exists>j<k. voltq ! j < q \<and> q \<le> voltq ! (j + 1)"
  using assms
proof (induction k)
  case 0
  then show ?case by simp
next
  case (Suc k)
  show ?case
  proof (cases "q \<le> voltq ! k")
    case True
    with Suc obtain j where "j < k" "voltq ! j < q" "q \<le> voltq ! (j + 1)" by auto
    then show ?thesis using less_Suc_eq by blast
  next
    case False
    with Suc.prems(3) show ?thesis by (intro exI [of _ k]) simp
  qed
qed

lemma anchors_inside:
  "i < 7 \<Longrightarrow> anchor_volts ! (i + 1) \<le> voltq ! 7 \<and>
     (i \<noteq> 0 \<longrightarrow> voltq ! 0 < anchor_volts ! i)"
  using index_below_7 [of i]
  by (auto simp add: voltq_def anchor_volts_def exact_interpolation_def socTable_def)

lemma batteryPercent_near_exact:
  assumes i: "i < 7" and lo: "anchor_volts ! i < q" and hi: "q < anchor_volts ! (i + 1)"
  shows "\<exists>p. batteryPercentFromVoltage (Fin q) = Some p \<and>
    \<bar>of_int p - exact_interpolation q i\<bar> \<le> 1 / 2 + 1 / 10000"
proof (cases "q \<le> voltq ! 0")
  case True
  then have r: "batteryPercentFromVoltage (Fin q) = Some 0"
    by (intro batteryPercent_low) (simp add: voltTable_nth)
  have i0: "i = 0" using anchors_inside [OF i] lo True by (cases "i = 0") simp_all
  have "16 / 5 < q" "q \<le> 13421773 / 4194304"
    using lo True i0 by (simp_all add: anchor_volts_def voltq_def)
  then have "\<bar>20 * q - 64\<bar> \<le> 1 / 50000" by linarith
  then have "\<bar>exact_interpolation q 0\<bar> \<le> 1 / 50000"
    by (simp add: exact_interpolation_def anchor_volts_def socTable_def algebra_simps)
  then show ?thesis using r i0 by simp
next
  case False
  have top: "q < voltq ! 7" using hi anchors_inside [OF i] by simp
  with False voltq_locate [of 7 q] obtain j where
    j: "j < 7" "voltq ! j < q" "q \<le> voltq ! (j + 1)" by auto
  have "battery_scan (Fin q) 0 = int_of_f32 (fadd (segment_soc (Fin q) j) (Fin (1 / 2)))"
    using j by (intro battery_scan_finds [where k = j]) simp_all
  with False top have r: "batteryPercentFromVoltage (Fin q) =
      int_of_f32 (fadd (segment_soc (Fin q) j) (Fin (1 / 2)))"
    by (simp add: batteryPercentFromVoltage_def voltTable_nth NUM_POINTS_def fge_def)
  define F where "F = of_int (socTable ! j) +
        (q - voltq ! j) / (voltq ! (j + 1) - voltq ! j) * of_int (socTable ! (j + 1) - socTable ! j)"
  from segment_soc_error [of j q] j obtain s where
    s: "segment_soc (Fin q) j = Fin s" "0 \<le> s" "s \<le> 100" "\<bar>s - F\<bar> \<le> 205 / 2 ^ 24"
    unfolding F_def by auto
  from round_percent_error [OF s(2,3)] obtain p where
    p: "int_of_f32 (fadd (Fin s) (Fin (1 / 2))) = Some p" "\<bar>of_int p - s\<bar> \<le> 1 / 2 + 1 / 2 ^ 18"
    by blast
  have c: "\<bar>F - exact_interpolation q i\<bar> \<le> 1 / 50000"
    unfolding F_def using i j(1) lo hi j(2,3) by (rule line_close)
  have "\<bar>s - F\<bar> \<le> 205 / 16777216" "\<bar>of_int p - s\<bar> \<le> 1 / 2 + 1 / 262144"
    using s(4) p(2) by simp_all
  with c have "\<bar>of_int p - exact_interpolation q i\<bar> \<le> 1 / 2 + 1 / 10000"
    by linarith
  then show ?thesis unfolding r s(1) using p(1) by simp
qed

subsection \<open>The claim about the battery curve\<close>

text \<open>
  C5, as amended. At a voltage of at most 3.20 the result is 0; at a \<^verbatim>\<open>float\<close> of at
  least 4.15 it is 100; at 3.75 it is 50. Strictly between two consecutive entries of the
  voltage table the result is the interpolation between their percents as computed in
  \<^verbatim>\<open>float\<close> arithmetic, with every operation rounded, clamped, increased by one half and
  truncated. Strictly between two consecutive anchors of the specification the result is an
  integer at a distance of at most 1/2 + 1/10000 from the exact interpolation: it is the
  nearest integer unless the exact interpolation lies within 1/10000 of the middle between
  two integers. The result is always defined and lies between 0 and 100.
\<close>

theorem batteryPercent_curve:
  "(fle v (Fin (320 / 100)) \<longrightarrow> batteryPercentFromVoltage v = Some 0) \<and>
   (is_f32 v \<and> fge v (Fin (415 / 100)) \<longrightarrow> batteryPercentFromVoltage v = Some 100) \<and>
   batteryPercentFromVoltage (Fin (375 / 100)) = Some 50 \<and>
   (i < 7 \<and> flt (voltTable ! i) v \<and> flt v (voltTable ! (i + 1)) \<longrightarrow>
      batteryPercentFromVoltage v = int_of_f32 (fadd (segment_soc v i) (Fin (1 / 2)))) \<and>
   (i < 7 \<and> anchor_volts ! i < q \<and> q < anchor_volts ! (i + 1) \<longrightarrow>
      (\<exists>p. batteryPercentFromVoltage (Fin q) = Some p \<and>
         \<bar>of_int p - exact_interpolation q i\<bar> \<le> 1 / 2 + 1 / 10000)) \<and>
   (\<exists>p. batteryPercentFromVoltage v = Some p \<and> 0 \<le> p \<and> p \<le> 100)"
  using batteryPercent_low [of v] batteryPercent_high [of v] batteryPercent_375
    batteryPercent_segment [of i v] batteryPercent_near_exact [of i q]
    batteryPercent_total [of v]
  by blast

theorem batteryPercent_curve_witness:
  "fle (Fin 3) (Fin (320 / 100)) \<and> batteryPercentFromVoltage (Fin 3) = Some 0 \<and>
   is_f32 (Fin 5) \<and> fge (Fin 5) (Fin (415 / 100)) \<and> batteryPercentFromVoltage (Fin 5) = Some 100 \<and>
   (1::nat) < 7 \<and> flt (voltTable ! 1) (Fin (7371945 / 2097152)) \<and>
   flt (Fin (7371945 / 2097152)) (voltTable ! (1 + 1)) \<and>
   batteryPercentFromVoltage (Fin (7371945 / 2097152)) =
     int_of_f32 (fadd (segment_soc (Fin (7371945 / 2097152)) 1) (Fin (1 / 2))) \<and>
   anchor_volts ! 1 < 7371945 / 2097152 \<and> 7371945 / 2097152 < anchor_volts ! (1 + 1) \<and>
   batteryPercentFromVoltage (Fin (7371945 / 2097152)) = Some 19 \<and>
   \<bar>of_int 19 - exact_interpolation (7371945 / 2097152) 1\<bar> \<le> 1 / 2 + 1 / 10000"
proof -
  have a: "fle (Fin 3) (Fin (320 / 100))" by simp
  have b: "is_f32 (Fin 5)" "fge (Fin 5) (Fin (415 / 100))"
    using rnd_of_int [of 5] by (simp_all add: is_f32_def fge_def)
  have c: "(1::nat) < 7" "flt (voltTable ! 1) (Fin (7371945 / 2097152))"
    "flt (Fin (7371945 / 2097152)) (voltTable ! (1 + 1))"
    by (simp_all add: voltTable_values)
  have d: "anchor_volts ! 1 < 7371945 / 2097152" "7371945 / 2097152 < anchor_volts ! (1 + 1)"
    by (simp_all add: anchor_volts_def)
  from c(1) d batteryPercent_curve [of "Fin (7371945 / 2097152)" 1 "7371945 / 2097152"]
  obtain p where p: "batteryPercentFromVoltage (Fin (7371945 / 2097152)) = Some p"
    "\<bar>of_int p - exact_interpolation (7371945 / 2097152) 1\<bar> \<le> 1 / 2 + 1 / 10000"
    by blast
  from p(1) have "p = 19" by (simp add: battery_cx)
  with p(2) have e: "\<bar>of_int 19 - exact_interpolation (7371945 / 2097152) 1\<bar> \<le> 1 / 2 + 1 / 10000"
    by simp
  from a b c d e batteryPercent_curve [of "Fin 3"] batteryPercent_curve [of "Fin 5"]
    batteryPercent_curve [of "Fin (7371945 / 2097152)" 1] battery_cx
  show ?thesis by blast
qed

text \<open>
  C5 as stated, with the exact interpolation rounded to the nearest integer, fails. The
  \<^verbatim>\<open>float\<close> 3.5152173042297363 lies between the anchors 3.30 and 3.60; the exact
  interpolation there is about 18.499993, whose nearest integer is 18, and the function
  returns 19: the rounded product is 16.5, the rounded sum 18.5.
\<close>

theorem batteryPercent_not_nearest:
  "anchor_volts ! 1 < 7371945 / 2097152 \<and> 7371945 / 2097152 < anchor_volts ! 2 \<and>
   is_f32 (Fin (7371945 / 2097152)) \<and>
   batteryPercentFromVoltage (Fin (7371945 / 2097152)) = Some 19 \<and>
   nearest_percent (exact_interpolation (7371945 / 2097152) 1) = 18"
  using spec_cx by (simp add: battery_cx is_f32_def cx_q0 anchor_volts_def)

section \<open>Properties of the MQTT callback\<close>

lemma c_str_length_le: "length (c_str buf) \<le> length buf"
  by (simp add: c_str_def length_takeWhile_le)

lemma takeWhile_upto_terminator:
  "takeWhile (\<lambda>c. c \<noteq> z) (xs @ z # ys) = takeWhile (\<lambda>c. c \<noteq> z) xs"
  by (induction xs) auto

lemma c_str_take_15: "length (c_str (take (min len 15) bytes)) \<le> 15"
  using c_str_length_le [of "take (min len 15) bytes"] by simp

lemma safeCopy_store:
  assumes "length dst = 16" "0 < len" "len \<le> length bytes"
  shows "length (safeCopy dst 16 (Some bytes) len) = 16"
    and "c_str (safeCopy dst 16 (Some bytes) len) = c_str (take (min len 15) bytes)"
    and "length (c_str (safeCopy dst 16 (Some bytes) len)) \<le> 15"
    and "safeCopy dst 16 (Some bytes) len ! (min len 15) = NUL"
proof -
  define n where "n = min len 15"
  have n: "n \<le> 15" "n \<le> length bytes" using assms by (simp_all add: n_def)
  have sc: "safeCopy dst 16 (Some bytes) len = (take n bytes @ drop n dst)[n := NUL]"
    using assms by (auto simp add: safeCopy_def memcpy_def n_def min_def)
  have ln: "length (take n bytes) = n" using n by simp
  obtain d ds where d: "drop n dst = d # ds"
    using assms(1) n(1) by (cases "drop n dst") simp_all
  have eq: "(take n bytes @ drop n dst)[n := NUL] = take n bytes @ NUL # ds"
    using ln by (simp add: d list_update_append)
  show "length (safeCopy dst 16 (Some bytes) len) = 16"
    using assms(1) n by (simp add: sc)
  show cs: "c_str (safeCopy dst 16 (Some bytes) len) = c_str (take (min len 15) bytes)"
    by (simp add: sc eq c_str_def takeWhile_upto_terminator n_def [symmetric])
  show "length (c_str (safeCopy dst 16 (Some bytes) len)) \<le> 15"
    using c_str_length_le [of "take n bytes"] n by (simp add: cs n_def [symmetric])
  show "safeCopy dst 16 (Some bytes) len ! (min len 15) = NUL"
    using ln by (simp add: sc eq n_def [symmetric] nth_append)
qed

text \<open>
  C10. A call with a null topic, a null payload, a length of 0, or a topic that is
  neither of the two topic names leaves the state as it is. A call that stores a payload
  of \<open>len\<close> readable bytes keeps the 16 bytes of the buffer, puts a zero byte at index
  \<open>min len 15\<close>, so that the stored string is the payload cut at 15 bytes (and at its
  first zero byte), and leaves the other buffer and flag alone.
\<close>

theorem mqttCallback_frame_and_truncation:
  "((topic = None \<or> payload = None \<or> len = 0 \<or>
     (topic \<noteq> Some TOPIC_PRICE_USD \<and> topic \<noteq> Some TOPIC_BALANCE_BTC)) \<longrightarrow>
      mqttCallback topic payload len st = st) \<and>
   (0 < len \<and> len \<le> length bytes \<and> length (priceUsdBuf st) = 16 \<longrightarrow>
      (let st' = mqttCallback (Some TOPIC_PRICE_USD) (Some bytes) len st in
       c_str (priceUsdBuf st') = c_str (take (min len 15) bytes) \<and>
       length (c_str (priceUsdBuf st')) \<le> 15 \<and>
       length (priceUsdBuf st') = 16 \<and> priceUsdBuf st' ! (min len 15) = NUL \<and>
       gotPrice st' \<and> balanceBtcBuf st' = balanceBtcBuf st \<and> gotBalance st' = gotBalance st)) \<and>
   (0 < len \<and> len \<le> length bytes \<and> length (balanceBtcBuf st) = 16 \<longrightarrow>
      (let st' = mqttCallback (Some TOPIC_BALANCE_BTC) (Some bytes) len st in
       c_str (balanceBtcBuf st') = c_str (take (min len 15) bytes) \<and>
       length (c_str (balanceBtcBuf st')) \<le> 15 \<and>
       length (balanceBtcBuf st') = 16 \<and> balanceBtcBuf st' ! (min len 15) = NUL \<and>
       gotBalance st' \<and> priceUsdBuf st' = priceUsdBuf st \<and> gotPrice st' = gotPrice st))"
  by (auto simp add: mqttCallback_def Let_def safeCopy_store c_str_take_15 TOPIC_PRICE_USD_def
      TOPIC_BALANCE_BTC_def)

theorem mqttCallback_frame_and_truncation_witness:
  "mqttCallback (Some ''home/other'') (Some ''1'') 1 power_on = power_on \<and>
   mqttCallback None (Some ''1'') 1 power_on = power_on \<and>
   mqttCallback (Some TOPIC_PRICE_USD) (Some ''1'') 0 power_on = power_on \<and>
   (0::nat) < 20 \<and> 20 \<le> length ''97123.45678901234567'' \<and> length (priceUsdBuf power_on) = 16 \<and>
   c_str (priceUsdBuf (mqttCallback (Some TOPIC_PRICE_USD) (Some ''97123.45678901234567'') 20 power_on)) =
     ''97123.456789012'' \<and>
   priceUsdBuf (mqttCallback (Some TOPIC_PRICE_USD) (Some ''97123.45678901234567'') 20 power_on) ! 15 = NUL \<and>
   (0::nat) < 3 \<and> 3 \<le> length ''0.5'' \<and> length (balanceBtcBuf power_on) = 16 \<and>
   c_str (balanceBtcBuf (mqttCallback (Some TOPIC_BALANCE_BTC) (Some ''0.5'') 3 power_on)) = ''0.5''"
proof -
  have l: "length (priceUsdBuf power_on) = 16" "length (balanceBtcBuf power_on) = 16"
    by (simp_all add: power_on_def)
  from mqttCallback_frame_and_truncation [of "Some ''home/other''" "Some ''1''" 1 power_on]
  have a: "mqttCallback (Some ''home/other'') (Some ''1'') 1 power_on = power_on"
    by (simp add: TOPIC_PRICE_USD_def TOPIC_BALANCE_BTC_def)
  from mqttCallback_frame_and_truncation [of None "Some ''1''" 1 power_on]
  have b: "mqttCallback None (Some ''1'') 1 power_on = power_on" by simp
  from mqttCallback_frame_and_truncation [of "Some TOPIC_PRICE_USD" "Some ''1''" 0 power_on]
  have c: "mqttCallback (Some TOPIC_PRICE_USD) (Some ''1'') 0 power_on = power_on" by simp
  from mqttCallback_frame_and_truncation [of _ _ 20 power_on "''97123.45678901234567''"] l
  have d: "c_str (priceUsdBuf (mqttCallback (Some TOPIC_PRICE_USD) (Some ''97123.45678901234567'') 20 power_on)) =
     ''97123.456789012''"
    "priceUsdBuf (mqttCallback (Some TOPIC_PRICE_USD) (Some ''97123.45678901234567'') 20 power_on) ! 15 = NUL"
    by (simp_all add: Let_def c_str_def NUL_def)
  from mqttCallback_frame_and_truncation [of _ _ 3 power_on "''0.5''"] l
  have e: "c_str (balanceBtcBuf (mqttCallback (Some TOPIC_BALANCE_BTC) (Some ''0.5'') 3 power_on)) = ''0.5''"
    by (simp add: Let_def c_str_def NUL_def)
  from a b c d e l show ?thesis by simp
qed

section \<open>Properties of the wake cycle\<close>

lemma log_event_fields [simp]:
  "lastPriceUsd (log_event ev st) = lastPriceUsd st"
  "lastBalanceBtc (log_event ev st) = lastBalanceBtc st"
  "gotPrice (log_event ev st) = gotPrice st"
  "gotBalance (log_event ev st) = gotBalance st"
  "priceUsdBuf (log_event ev st) = priceUsdBuf st"
  "balanceBtcBuf (log_event ev st) = balanceBtcBuf st"
  "trace (log_event ev st) = trace st @ [ev]"
  by (simp_all add: log_event_def)

lemma deliver_trace: "deliver (st\<lparr>trace := t\<rparr>) m = (deliver st m)\<lparr>trace := t\<rparr>"
  by (simp add: deliver_def mqttCallback_def)

lemma foldl_deliver_trace:
  "foldl deliver (st\<lparr>trace := t\<rparr>) ms = (foldl deliver st ms)\<lparr>trace := t\<rparr>"
  by (induction ms arbitrary: st) (simp_all add: deliver_trace)

lemma trace_update_twice: "st\<lparr>trace := a\<rparr>\<lparr>trace := b\<rparr> = st\<lparr>trace := b\<rparr>"
  by simp

text \<open>
  The wait loop handles the messages of its first \<open>k\<close> turns and nothing else; it
  stops before the last turn only with both flags set.
\<close>

lemma wait_loop_prefix:
  "\<exists>k \<le> length ds.
     wait_loop ds st =
       (foldl deliver st (concat (take k ds)))\<lparr>trace := trace st @ replicate k MqttLoop\<rparr> \<and>
     (k < length ds \<longrightarrow> gotPrice (wait_loop ds st) \<and> gotBalance (wait_loop ds st))"
proof (induction ds arbitrary: st)
  case Nil
  then show ?case by simp
next
  case (Cons ms rest)
  define st1 where "st1 = foldl deliver (log_event MqttLoop st) ms"
  have st1: "st1 = (foldl deliver st ms)\<lparr>trace := trace st @ [MqttLoop]\<rparr>"
    by (simp add: st1_def log_event_def foldl_deliver_trace)
  show ?case
  proof (cases "gotPrice st1 \<and> gotBalance st1")
    case True
    then have w: "wait_loop (ms # rest) st = st1" by (simp add: st1_def Let_def)
    show ?thesis
      unfolding w by (rule exI [where x = 1]) (use True in \<open>simp add: st1\<close>)
  next
    case False
    then have w: "wait_loop (ms # rest) st = wait_loop rest st1" by (auto simp add: st1_def Let_def)
    from Cons.IH [of st1] obtain k where k: "k \<le> length rest"
      "wait_loop rest st1 =
         (foldl deliver st1 (concat (take k rest)))\<lparr>trace := trace st1 @ replicate k MqttLoop\<rparr>"
      "k < length rest \<longrightarrow> gotPrice (wait_loop rest st1) \<and> gotBalance (wait_loop rest st1)"
      by blast
    have "wait_loop rest st1 =
        (foldl deliver st (concat (take (Suc k) (ms # rest))))
          \<lparr>trace := trace st @ replicate (Suc k) MqttLoop\<rparr>"
      by (simp add: k(2)) (simp add: st1 foldl_deliver_trace replicate_append_same)
    with k(1,3) show ?thesis
      unfolding w by (intro exI [where x = "Suc k"]) auto
  qed
qed

lemma deliver_retained [simp]:
  "lastPriceUsd (deliver st m) = lastPriceUsd st"
  "lastBalanceBtc (deliver st m) = lastBalanceBtc st"
  by (simp_all add: deliver_def mqttCallback_def)

lemma foldl_deliver_retained [simp]:
  "lastPriceUsd (foldl deliver st ms) = lastPriceUsd st"
  "lastBalanceBtc (foldl deliver st ms) = lastBalanceBtc st"
  by (induction ms arbitrary: st) simp_all

lemma deliver_buffers_ok: "buffers_ok st \<Longrightarrow> buffers_ok (deliver st m)"
  by (auto simp add: buffers_ok_def deliver_def mqttCallback_def safeCopy_store c_str_take_15)

lemma foldl_deliver_buffers_ok: "buffers_ok st \<Longrightarrow> buffers_ok (foldl deliver st ms)"
  by (induction ms arbitrary: st) (simp_all add: deliver_buffers_ok)

lemma payloads_snoc:
  "payloads topic (ms @ [m]) =
     (if fst m = topic \<and> snd m \<noteq> [] then payloads topic ms @ [snd m] else payloads topic ms)"
  by (simp add: payloads_def)

lemma topics_differ: "TOPIC_PRICE_USD \<noteq> TOPIC_BALANCE_BTC"
  by (simp add: TOPIC_PRICE_USD_def TOPIC_BALANCE_BTC_def)

lemma foldl_deliver_price:
  assumes "length (priceUsdBuf st) = 16"
  shows "gotPrice (foldl deliver st ms) = (gotPrice st \<or> payloads TOPIC_PRICE_USD ms \<noteq> []) \<and>
    length (priceUsdBuf (foldl deliver st ms)) = 16 \<and>
    (if payloads TOPIC_PRICE_USD ms = [] then priceUsdBuf (foldl deliver st ms) = priceUsdBuf st
     else c_str (priceUsdBuf (foldl deliver st ms)) =
            c_str (take 15 (last (payloads TOPIC_PRICE_USD ms))))"
proof (induction ms rule: rev_induct)
  case Nil
  then show ?case by (simp add: payloads_def assms)
next
  case (snoc m ms)
  define s where "s = foldl deliver st ms"
  have l: "length (priceUsdBuf s) = 16" using snoc by (simp add: s_def)
  show ?case
  proof (cases "fst m = TOPIC_PRICE_USD \<and> snd m \<noteq> []")
    case True
    then have d: "deliver s m = s\<lparr>priceUsdBuf := safeCopy (priceUsdBuf s) 16 (Some (snd m)) (length (snd m)),
        gotPrice := True\<rparr>"
      by (simp add: deliver_def mqttCallback_def)
    have m15: "min (length (snd m)) 15 = min 15 (length (snd m))" by simp
    from True l show ?thesis
      by (simp add: s_def [symmetric] payloads_snoc d safeCopy_store take_all_iff min_def)
  next
    case False
    then have "priceUsdBuf (deliver s m) = priceUsdBuf s \<and> gotPrice (deliver s m) = gotPrice s"
      using topics_differ by (cases m) (auto simp add: deliver_def mqttCallback_def)
    with False snoc [folded s_def] show ?thesis
      by (auto simp add: s_def [symmetric] payloads_snoc)
  qed
qed

lemma foldl_deliver_balance:
  assumes "length (balanceBtcBuf st) = 16"
  shows "gotBalance (foldl deliver st ms) = (gotBalance st \<or> payloads TOPIC_BALANCE_BTC ms \<noteq> []) \<and>
    length (balanceBtcBuf (foldl deliver st ms)) = 16 \<and>
    (if payloads TOPIC_BALANCE_BTC ms = []
     then balanceBtcBuf (foldl deliver st ms) = balanceBtcBuf st
     else c_str (balanceBtcBuf (foldl deliver st ms)) =
            c_str (take 15 (last (payloads TOPIC_BALANCE_BTC ms))))"
proof (induction ms rule: rev_induct)
  case Nil
  then show ?case by (simp add: payloads_def assms)
next
  case (snoc m ms)
  define s where "s = foldl deliver st ms"
  have l: "length (balanceBtcBuf s) = 16" using snoc by (simp add: s_def)
  show ?case
  proof (cases "fst m = TOPIC_BALANCE_BTC \<and> snd m \<noteq> []")
    case True
    then have d: "deliver s m =
        s\<lparr>balanceBtcBuf := safeCopy (balanceBtcBuf s) 16 (Some (snd m)) (length (snd m)),
          gotBalance := True\<rparr>"
      using topics_differ by (simp add: deliver_def mqttCallback_def)
    from True l show ?thesis
      by (simp add: s_def [symmetric] payloads_snoc d safeCopy_store take_all_iff min_def)
  next
    case False
    then have "balanceBtcBuf (deliver s m) = balanceBtcBuf s \<and>
        gotBalance (deliver s m) = gotBalance s"
      by (cases m) (auto simp add: deliver_def mqttCallback_def)
    with False snoc [folded s_def] show ?thesis
      by (auto simp add: s_def [symmetric] payloads_snoc)
  qed
qed

lemma payloads_prefix: "payloads topic (concat (take k ds)) \<noteq> [] \<Longrightarrow> payloads topic (concat ds) \<noteq> []"
proof -
  have "concat ds = concat (take k ds) @ concat (drop k ds)"
    by (metis append_take_drop_id concat_append)
  then show "payloads topic (concat (take k ds)) \<noteq> [] \<Longrightarrow> payloads topic (concat ds) \<noteq> []"
    by (simp add: payloads_def)
qed

text \<open>The state in which the wait loop starts and what it leaves.\<close>

lemma wait_loop_result:
  assumes "length (priceUsdBuf st) = 16" "length (balanceBtcBuf st) = 16"
    "\<not> gotPrice st" "\<not> gotBalance st"
  shows "gotPrice (wait_loop ds st) = (payloads TOPIC_PRICE_USD (concat ds) \<noteq> [])"
    and "gotBalance (wait_loop ds st) = (payloads TOPIC_BALANCE_BTC (concat ds) \<noteq> [])"
    and "lastPriceUsd (wait_loop ds st) = lastPriceUsd st"
    and "lastBalanceBtc (wait_loop ds st) = lastBalanceBtc st"
    and "length (priceUsdBuf (wait_loop ds st)) = 16"
    and "length (balanceBtcBuf (wait_loop ds st)) = 16"
    and "payloads TOPIC_PRICE_USD (concat ds) = [] \<Longrightarrow>
         priceUsdBuf (wait_loop ds st) = priceUsdBuf st \<and>
         (payloads TOPIC_BALANCE_BTC (concat ds) \<noteq> [] \<longrightarrow>
            c_str (balanceBtcBuf (wait_loop ds st)) =
              c_str (take 15 (last (payloads TOPIC_BALANCE_BTC (concat ds)))))"
    and "payloads TOPIC_BALANCE_BTC (concat ds) = [] \<Longrightarrow>
         balanceBtcBuf (wait_loop ds st) = balanceBtcBuf st \<and>
         (payloads TOPIC_PRICE_USD (concat ds) \<noteq> [] \<longrightarrow>
            c_str (priceUsdBuf (wait_loop ds st)) =
              c_str (take 15 (last (payloads TOPIC_PRICE_USD (concat ds)))))"
    and "\<exists>k. trace (wait_loop ds st) = trace st @ replicate k MqttLoop"
proof -
  from wait_loop_prefix [of ds st] obtain k where k: "k \<le> length ds"
    "wait_loop ds st =
       (foldl deliver st (concat (take k ds)))\<lparr>trace := trace st @ replicate k MqttLoop\<rparr>"
    "k < length ds \<longrightarrow> gotPrice (wait_loop ds st) \<and> gotBalance (wait_loop ds st)"
    by blast
  define ms where "ms = concat (take k ds)"
  note p = foldl_deliver_price [OF assms(1), of ms]
  note b = foldl_deliver_balance [OF assms(2), of ms]
  have gp: "gotPrice (wait_loop ds st) = (payloads TOPIC_PRICE_USD ms \<noteq> [])"
    and gb: "gotBalance (wait_loop ds st) = (payloads TOPIC_BALANCE_BTC ms \<noteq> [])"
    using p b assms(3,4) by (simp_all add: k(2) ms_def)
  have full: "ms = concat ds" if "\<not> (gotPrice (wait_loop ds st) \<and> gotBalance (wait_loop ds st))"
  proof -
    from that k(1,3) have "k = length ds" by auto
    then show ?thesis by (simp add: ms_def)
  qed
  show "gotPrice (wait_loop ds st) = (payloads TOPIC_PRICE_USD (concat ds) \<noteq> [])"
    using gp gb full payloads_prefix [of TOPIC_PRICE_USD k ds] by (auto simp add: ms_def)
  show "gotBalance (wait_loop ds st) = (payloads TOPIC_BALANCE_BTC (concat ds) \<noteq> [])"
    using gp gb full payloads_prefix [of TOPIC_BALANCE_BTC k ds] by (auto simp add: ms_def)
  show "lastPriceUsd (wait_loop ds st) = lastPriceUsd st"
    "lastBalanceBtc (wait_loop ds st) = lastBalanceBtc st"
    by (simp_all add: k(2))
  show "length (priceUsdBuf (wait_loop ds st)) = 16" "length (balanceBtcBuf (wait_loop ds st)) = 16"
    using p b by (simp_all add: k(2) ms_def)
  show "\<exists>k. trace (wait_loop ds st) = trace st @ replicate k MqttLoop"
    by (rule exI [where x = k]) (simp add: k(2))
  show "priceUsdBuf (wait_loop ds st) = priceUsdBuf st \<and>
         (payloads TOPIC_BALANCE_BTC (concat ds) \<noteq> [] \<longrightarrow>
            c_str (balanceBtcBuf (wait_loop ds st)) =
              c_str (take 15 (last (payloads TOPIC_BALANCE_BTC (concat ds)))))"
    if none: "payloads TOPIC_PRICE_USD (concat ds) = []"
  proof -
    have "payloads TOPIC_PRICE_USD ms = []"
      using none payloads_prefix [of TOPIC_PRICE_USD k ds] by (auto simp add: ms_def)
    then have "\<not> gotPrice (wait_loop ds st)" by (simp add: gp)
    then have e: "ms = concat ds" by (intro full) simp
    from p [unfolded e] b [unfolded e] none show ?thesis
      by (auto simp add: k(2) ms_def [symmetric] e split: if_splits)
  qed
  show "balanceBtcBuf (wait_loop ds st) = balanceBtcBuf st \<and>
         (payloads TOPIC_PRICE_USD (concat ds) \<noteq> [] \<longrightarrow>
            c_str (priceUsdBuf (wait_loop ds st)) =
              c_str (take 15 (last (payloads TOPIC_PRICE_USD (concat ds)))))"
    if none: "payloads TOPIC_BALANCE_BTC (concat ds) = []"
  proof -
    have "payloads TOPIC_BALANCE_BTC ms = []"
      using none payloads_prefix [of TOPIC_BALANCE_BTC k ds] by (auto simp add: ms_def)
    then have "\<not> gotBalance (wait_loop ds st)" by (simp add: gb)
    then have e: "ms = concat ds" by (intro full) simp
    from p [unfolded e] b [unfolded e] none show ?thesis
      by (auto simp add: k(2) ms_def [symmetric] e split: if_splits)
  qed
qed

lemma buffers_ok_trace [simp]: "buffers_ok (st\<lparr>trace := t\<rparr>) = buffers_ok st"
  by (simp add: buffers_ok_def)

lemma wait_loop_buffers_ok: "buffers_ok st \<Longrightarrow> buffers_ok (wait_loop ds st)"
  using wait_loop_prefix [of ds st] by (auto simp add: foldl_deliver_buffers_ok)

lemma c_str_reset: "buf \<noteq> [] \<Longrightarrow> c_str (buf[0 := NUL]) = []"
  by (cases buf) (simp_all add: c_str_def)

lemma c_str_reset_16: "length buf = 16 \<Longrightarrow> c_str (buf[0 := NUL]) = []"
  by (rule c_str_reset) auto

lemma reset_incoming_fields [simp]:
  "gotPrice (reset_incoming st) = False"
  "gotBalance (reset_incoming st) = False"
  "lastPriceUsd (reset_incoming st) = lastPriceUsd st"
  "lastBalanceBtc (reset_incoming st) = lastBalanceBtc st"
  "priceUsdBuf (reset_incoming st) = (priceUsdBuf st)[0 := NUL]"
  "balanceBtcBuf (reset_incoming st) = (balanceBtcBuf st)[0 := NUL]"
  "trace (reset_incoming st) = trace st @ [ResetIncoming]"
  by (simp_all add: reset_incoming_def Let_def)

lemma reset_incoming_buffers_ok:
  "length (priceUsdBuf st) = 16 \<Longrightarrow> length (balanceBtcBuf st) = 16 \<Longrightarrow>
   buffers_ok (reset_incoming st)"
  by (simp add: buffers_ok_def c_str_reset_16)

lemma connectMQTT_fields [simp]:
  "fst (connectMQTT e st) = mqtt_connects e"
  "gotPrice (snd (connectMQTT e st)) = gotPrice st"
  "gotBalance (snd (connectMQTT e st)) = gotBalance st"
  "lastPriceUsd (snd (connectMQTT e st)) = lastPriceUsd st"
  "lastBalanceBtc (snd (connectMQTT e st)) = lastBalanceBtc st"
  "priceUsdBuf (snd (connectMQTT e st)) = priceUsdBuf st"
  "balanceBtcBuf (snd (connectMQTT e st)) = balanceBtcBuf st"
  "trace (snd (connectMQTT e st)) =
     trace st @ MqttConnect # (if mqtt_connects e then [MqttSubscribe, MqttSubscribe] else [])"
  by (simp_all add: connectMQTT_def Let_def)

lemma connectMQTT_buffers_ok [simp]: "buffers_ok (snd (connectMQTT e st)) = buffers_ok st"
  by (simp add: buffers_ok_def)

lemma log_event_buffers_ok [simp]: "buffers_ok (log_event ev st) = buffers_ok st"
  by (simp add: buffers_ok_def)

text \<open>The two forms of the network part.\<close>

lemma acquire_cases:
  "acquire e st =
     (let st1 = reset_incoming
                  (if wifi_connects e then log_event TimeSync (log_event WifiConnect st)
                   else log_event WifiConnect st)
      in if wifi_connects e then
           (if mqtt_connects e then wait_loop (mqtt_deliveries e) (snd (connectMQTT e st1))
            else snd (connectMQTT e st1))
         else st1)"
  by (simp add: acquire_def Let_def split: prod.splits) (auto simp add: connectMQTT_def Let_def)

lemma acquire_result:
  assumes "length (priceUsdBuf st) = 16" "length (balanceBtcBuf st) = 16"
  shows "gotPrice (acquire e st) = delivers e TOPIC_PRICE_USD"
    and "gotBalance (acquire e st) = delivers e TOPIC_BALANCE_BTC"
    and "lastPriceUsd (acquire e st) = lastPriceUsd st"
    and "lastBalanceBtc (acquire e st) = lastBalanceBtc st"
    and "buffers_ok (acquire e st)"
    and "delivers e TOPIC_BALANCE_BTC \<Longrightarrow> \<not> delivers e TOPIC_PRICE_USD \<Longrightarrow>
         c_str (balanceBtcBuf (acquire e st)) =
           c_str (take 15 (fresh_payload e TOPIC_BALANCE_BTC))"
    and "delivers e TOPIC_PRICE_USD \<Longrightarrow> \<not> delivers e TOPIC_BALANCE_BTC \<Longrightarrow>
         c_str (priceUsdBuf (acquire e st)) =
           c_str (take 15 (fresh_payload e TOPIC_PRICE_USD))"
    and "\<exists>post. trace (acquire e st) =
           trace st @ WifiConnect # (if wifi_connects e then [TimeSync] else []) @
             ResetIncoming # post \<and> list_all is_mqtt_op post"
proof -
  define st1 where "st1 = reset_incoming
      (if wifi_connects e then log_event TimeSync (log_event WifiConnect st)
       else log_event WifiConnect st)"
  define st2 where "st2 = snd (connectMQTT e st1)"
  have ok1: "buffers_ok st1" unfolding st1_def using assms by (intro reset_incoming_buffers_ok) simp_all
  have l2: "length (priceUsdBuf st2) = 16" "length (balanceBtcBuf st2) = 16"
    "\<not> gotPrice st2" "\<not> gotBalance st2"
    using assms by (simp_all add: st2_def st1_def)
  have ok2: "buffers_ok st2" using ok1 by (simp add: st2_def)
  have g1: "\<not> gotPrice st1" "\<not> gotBalance st1" by (simp_all add: st1_def)
  have r1: "lastPriceUsd st1 = lastPriceUsd st" "lastBalanceBtc st1 = lastBalanceBtc st"
    "lastPriceUsd st2 = lastPriceUsd st" "lastBalanceBtc st2 = lastBalanceBtc st"
    by (simp_all add: st1_def st2_def)
  have a: "acquire e st =
     (if wifi_connects e then (if mqtt_connects e then wait_loop (mqtt_deliveries e) st2 else st2)
      else st1)"
    by (simp add: acquire_cases st1_def st2_def Let_def)
  note w = wait_loop_result [OF l2, of "mqtt_deliveries e"]
  have t1: "trace st1 = trace st @ WifiConnect # (if wifi_connects e then [TimeSync] else []) @ [ResetIncoming]"
    by (simp add: st1_def)
  show "gotPrice (acquire e st) = delivers e TOPIC_PRICE_USD"
    using w(1) l2 g1 by (simp add: a delivers_def topic_messages_def payloads_def)
  show "gotBalance (acquire e st) = delivers e TOPIC_BALANCE_BTC"
    using w(2) l2 g1 by (simp add: a delivers_def topic_messages_def payloads_def)
  show "lastPriceUsd (acquire e st) = lastPriceUsd st" "lastBalanceBtc (acquire e st) = lastBalanceBtc st"
    using w(3,4) r1 by (simp_all add: a)
  show "buffers_ok (acquire e st)"
    using ok1 ok2 wait_loop_buffers_ok [OF ok2] by (simp add: a)
  show "c_str (balanceBtcBuf (acquire e st)) = c_str (take 15 (fresh_payload e TOPIC_BALANCE_BTC))"
    if "delivers e TOPIC_BALANCE_BTC" "\<not> delivers e TOPIC_PRICE_USD"
    using that w(7)
    by (simp add: a delivers_def topic_messages_def fresh_payload_def payloads_def)
  show "c_str (priceUsdBuf (acquire e st)) = c_str (take 15 (fresh_payload e TOPIC_PRICE_USD))"
    if "delivers e TOPIC_PRICE_USD" "\<not> delivers e TOPIC_BALANCE_BTC"
    using that w(8)
    by (simp add: a delivers_def topic_messages_def fresh_payload_def payloads_def)
  from w(9) obtain k where k: "trace (wait_loop (mqtt_deliveries e) st2) = trace st2 @ replicate k MqttLoop"
    by blast
  have t2: "trace st2 =
      trace st1 @ MqttConnect # (if mqtt_connects e then [MqttSubscribe, MqttSubscribe] else [])"
    by (simp add: st2_def)
  define post where "post =
    (if wifi_connects e
     then MqttConnect #
            (if mqtt_connects e then [MqttSubscribe, MqttSubscribe] @ replicate k MqttLoop else [])
     else [])"
  have "trace (acquire e st) =
      trace st @ WifiConnect # (if wifi_connects e then [TimeSync] else []) @ ResetIncoming # post"
    by (simp add: a k t1 t2 post_def)
  moreover have "list_all is_mqtt_op post"
    by (auto simp add: post_def list_all_iff)
  ultimately show "\<exists>post. trace (acquire e st) =
           trace st @ WifiConnect # (if wifi_connects e then [TimeSync] else []) @
             ResetIncoming # post \<and> list_all is_mqtt_op post"
    by blast
qed

lemma c_str_idem: "takeWhile (\<lambda>c. c \<noteq> NUL) (c_str buf) = c_str buf"
  by (simp add: c_str_def)

lemma strncpy_terminated:
  assumes "length dst = 16" "length (c_str src) \<le> 15"
  shows "c_str ((strncpy dst src 15)[15 := NUL]) = c_str src"
    and "length (strncpy dst src 15) = 16"
proof -
  define s where "s = c_str src"
  define pad where "pad = replicate (15 - length s) NUL"
  have t: "take 15 (s @ replicate 15 NUL) = s @ pad"
    using assms(2) by (simp add: s_def pad_def)
  have "length (drop 15 dst) = 1" using assms(1) by simp
  then obtain d where d: "drop 15 dst = [d]"
    by (cases "drop 15 dst") auto
  have l: "length (s @ pad) = 15" using assms(2) by (simp add: s_def pad_def)
  have sn: "strncpy dst src 15 = (s @ pad) @ [d]"
    unfolding strncpy_def s_def [symmetric] t d by (rule refl)
  have "(strncpy dst src 15)[15 := NUL] = ((s @ pad) @ [d])[15 := NUL]"
    by (simp only: sn)
  also have "\<dots> = (s @ pad) @ [NUL]"
    using l by (simp only: list_update_length [of "s @ pad" d "[]" NUL, simplified l])
  finally have eq: "(strncpy dst src 15)[15 := NUL] = s @ pad @ [NUL]" by simp
  obtain rest where r: "pad @ [NUL] = NUL # rest"
    by (cases "15 - length s") (simp_all add: pad_def)
  show "c_str ((strncpy dst src 15)[15 := NUL]) = c_str src"
    unfolding eq r by (simp add: c_str_def takeWhile_upto_terminator s_def)
  show "length (strncpy dst src 15) = 16"
    using l by (simp add: sn)
qed

lemma persist_result:
  assumes "length (lastPriceUsd st) = 16" "length (lastBalanceBtc st) = 16" "buffers_ok st"
  shows "gotPrice (persist st) = gotPrice st" "gotBalance (persist st) = gotBalance st"
    and "priceUsdBuf (persist st) = priceUsdBuf st" "balanceBtcBuf (persist st) = balanceBtcBuf st"
    and "trace (persist st) = trace st"
    and "if gotPrice st then c_str (lastPriceUsd (persist st)) = c_str (priceUsdBuf st)
         else lastPriceUsd (persist st) = lastPriceUsd st"
    and "if gotBalance st then c_str (lastBalanceBtc (persist st)) = c_str (balanceBtcBuf st)
         else lastBalanceBtc (persist st) = lastBalanceBtc st"
    and "length (lastPriceUsd (persist st)) = 16" "length (lastBalanceBtc (persist st)) = 16"
  using assms
  by (simp_all add: persist_def Let_def buffers_ok_def strncpy_terminated)

lemma shutdown_fields [simp]:
  "gotPrice (shutdown e st) = gotPrice st"
  "gotBalance (shutdown e st) = gotBalance st"
  "lastPriceUsd (shutdown e st) = lastPriceUsd st"
  "lastBalanceBtc (shutdown e st) = lastBalanceBtc st"
  "priceUsdBuf (shutdown e st) = priceUsdBuf st"
  "balanceBtcBuf (shutdown e st) = balanceBtcBuf st"
  "trace (shutdown e st) =
     trace st @ (if mqtt_connected_at_end e then [MqttDisconnect] else []) @
       [WifiDisconnect, DeepSleep]"
  by (simp_all add: shutdown_def Let_def)

text \<open>What a cycle returns, in terms of what the topics deliver.\<close>

lemma setup_cycle_result:
  assumes "length (lastPriceUsd st) = 16" "length (lastBalanceBtc st) = 16"
    "length (priceUsdBuf st) = 16" "length (balanceBtcBuf st) = 16"
  shows "\<exists>r. setup_cycle powf strtof e st = Some r \<and>
    gotPrice (final r) = delivers e TOPIC_PRICE_USD \<and>
    gotBalance (final r) = delivers e TOPIC_BALANCE_BTC \<and>
    (if delivers e TOPIC_PRICE_USD
     then c_str (lastPriceUsd (final r)) = c_str (priceUsdBuf (final r)) \<and>
          priceUsd r = parseFloatSafe strtof (Some (c_str (priceUsdBuf (final r))))
     else lastPriceUsd (final r) = lastPriceUsd st \<and>
          priceUsd r = parseFloatSafe strtof (Some (c_str (lastPriceUsd st)))) \<and>
    (if delivers e TOPIC_BALANCE_BTC
     then c_str (lastBalanceBtc (final r)) = c_str (balanceBtcBuf (final r)) \<and>
          balanceBtc r = parseFloatSafe strtof (Some (c_str (balanceBtcBuf (final r))))
     else lastBalanceBtc (final r) = lastBalanceBtc st \<and>
          balanceBtc r = parseFloatSafe strtof (Some (c_str (lastBalanceBtc st)))) \<and>
    (delivers e TOPIC_BALANCE_BTC \<and> \<not> delivers e TOPIC_PRICE_USD \<longrightarrow>
       c_str (balanceBtcBuf (final r)) = c_str (take 15 (fresh_payload e TOPIC_BALANCE_BTC))) \<and>
    (delivers e TOPIC_PRICE_USD \<and> \<not> delivers e TOPIC_BALANCE_BTC \<longrightarrow>
       c_str (priceUsdBuf (final r)) = c_str (take 15 (fresh_payload e TOPIC_PRICE_USD))) \<and>
    shown r = computeLongevityWithInflation powf (fmul (balanceBtc r) (priceUsd r))
                MONTHLY_EXP_USD INFLATION_ANNUAL \<and>
    (\<exists>post. trace (final r) =
       [PowerDisplay, ReadBattery, WifiConnect] @ (if wifi_connects e then [TimeSync] else []) @
         ResetIncoming # post)"
proof -
  define vbat where "vbat = readBatteryVoltage (analog_raw e)"
  from batteryPercent_total [of vbat] obtain pct where
    pct: "batteryPercentFromVoltage vbat = Some pct" by blast
  define st0 where "st0 = (log_event ReadBattery (log_event PowerDisplay (st\<lparr>trace := []\<rparr>)))
      \<lparr>lastBatteryVoltage := vbat, lastBatteryPercent := pct\<rparr>"
  define a where "a = acquire e st0"
  define d where "d = log_event DrawFrame a"
  have l0: "length (priceUsdBuf st0) = 16" "length (balanceBtcBuf st0) = 16"
    using assms by (simp_all add: st0_def log_event_def)
  note acq = acquire_result [OF l0, of e, folded a_def]
  have r0: "lastPriceUsd st0 = lastPriceUsd st" "lastBalanceBtc st0 = lastBalanceBtc st"
    "trace st0 = [PowerDisplay, ReadBattery]"
    by (simp_all add: st0_def log_event_def)
  have ld: "length (lastPriceUsd d) = 16" "length (lastBalanceBtc d) = 16" "buffers_ok d"
    using acq(3,4,5) assms by (simp_all add: d_def r0)
  note per = persist_result [OF ld]
  define pu where "pu = parseFloatSafe strtof
      (Some (c_str (if gotPrice a then priceUsdBuf a else lastPriceUsd a)))"
  define bb where "bb = parseFloatSafe strtof
      (Some (c_str (if gotBalance a then balanceBtcBuf a else lastBalanceBtc a)))"
  define r where "r = \<lparr>final = shutdown e (persist d), priceUsd = pu, balanceBtc = bb,
      shown = computeLongevityWithInflation powf (fmul bb pu) MONTHLY_EXP_USD INFLATION_ANNUAL,
      shown_vbat = vbat, shown_pct = pct,
      shown_timestamp = (if wifi_connects e then timestamp_text e else ''--'')\<rparr>"
  have run: "setup_cycle powf strtof e st = Some r"
    by (simp add: setup_cycle_def Let_def vbat_def [symmetric] pct st0_def [symmetric]
        a_def [symmetric] d_def [symmetric] pu_def bb_def r_def)
  have gd: "gotPrice d = delivers e TOPIC_PRICE_USD" "gotBalance d = delivers e TOPIC_BALANCE_BTC"
    "priceUsdBuf d = priceUsdBuf a" "balanceBtcBuf d = balanceBtcBuf a"
    "lastPriceUsd d = lastPriceUsd st" "lastBalanceBtc d = lastBalanceBtc st"
    by (simp_all add: d_def acq r0)
  have f: "gotPrice (final r) = delivers e TOPIC_PRICE_USD"
    "gotBalance (final r) = delivers e TOPIC_BALANCE_BTC"
    "priceUsdBuf (final r) = priceUsdBuf a" "balanceBtcBuf (final r) = balanceBtcBuf a"
    "lastPriceUsd (final r) = lastPriceUsd (persist d)"
    "lastBalanceBtc (final r) = lastBalanceBtc (persist d)"
    using per(1-4) by (simp_all add: r_def gd)
  have v: "priceUsd r = parseFloatSafe strtof
        (Some (c_str (if delivers e TOPIC_PRICE_USD then priceUsdBuf a else lastPriceUsd st)))"
    "balanceBtc r = parseFloatSafe strtof
        (Some (c_str (if delivers e TOPIC_BALANCE_BTC then balanceBtcBuf a else lastBalanceBtc st)))"
    using acq(1-4) by (simp_all add: r_def pu_def bb_def r0)
  from acq(8) obtain post where post: "trace a =
      trace st0 @ WifiConnect # (if wifi_connects e then [TimeSync] else []) @ ResetIncoming # post"
    by blast
  have tr: "trace (final r) =
       [PowerDisplay, ReadBattery, WifiConnect] @ (if wifi_connects e then [TimeSync] else []) @
         ResetIncoming # (post @ DrawFrame #
           (if mqtt_connected_at_end e then [MqttDisconnect] else []) @ [WifiDisconnect, DeepSleep])"
    using per(5) by (simp add: r_def d_def post r0)
  have "if delivers e TOPIC_PRICE_USD
     then c_str (lastPriceUsd (final r)) = c_str (priceUsdBuf (final r)) \<and>
          priceUsd r = parseFloatSafe strtof (Some (c_str (priceUsdBuf (final r))))
     else lastPriceUsd (final r) = lastPriceUsd st \<and>
          priceUsd r = parseFloatSafe strtof (Some (c_str (lastPriceUsd st)))"
    using per(6) by (simp add: f(3,5) v gd)
  moreover have "if delivers e TOPIC_BALANCE_BTC
     then c_str (lastBalanceBtc (final r)) = c_str (balanceBtcBuf (final r)) \<and>
          balanceBtc r = parseFloatSafe strtof (Some (c_str (balanceBtcBuf (final r))))
     else lastBalanceBtc (final r) = lastBalanceBtc st \<and>
          balanceBtc r = parseFloatSafe strtof (Some (c_str (lastBalanceBtc st)))"
    using per(7) by (simp add: f(4,6) v gd)
  moreover have "delivers e TOPIC_BALANCE_BTC \<and> \<not> delivers e TOPIC_PRICE_USD \<longrightarrow>
       c_str (balanceBtcBuf (final r)) = c_str (take 15 (fresh_payload e TOPIC_BALANCE_BTC))"
    using acq(6) by (simp add: f)
  moreover have "delivers e TOPIC_PRICE_USD \<and> \<not> delivers e TOPIC_BALANCE_BTC \<longrightarrow>
       c_str (priceUsdBuf (final r)) = c_str (take 15 (fresh_payload e TOPIC_PRICE_USD))"
    using acq(7) by (simp add: f)
  moreover have "shown r = computeLongevityWithInflation powf (fmul (balanceBtc r) (priceUsd r))
                MONTHLY_EXP_USD INFLATION_ANNUAL"
    by (simp add: r_def)
  ultimately show ?thesis using run tr f(1,2) by blast
qed

lemma persist_trace [simp]: "trace (persist st) = trace st"
  by (simp add: persist_def Let_def)

lemma acquire_trace:
  "\<exists>post. trace (acquire e st) =
     trace st @ WifiConnect # (if wifi_connects e then [TimeSync] else []) @ ResetIncoming # post"
proof -
  define st1 where "st1 = reset_incoming
      (if wifi_connects e then log_event TimeSync (log_event WifiConnect st)
       else log_event WifiConnect st)"
  define st2 where "st2 = snd (connectMQTT e st1)"
  have t1: "trace st1 =
      trace st @ WifiConnect # (if wifi_connects e then [TimeSync] else []) @ [ResetIncoming]"
    by (simp add: st1_def)
  have t2: "trace st2 =
      trace st1 @ MqttConnect # (if mqtt_connects e then [MqttSubscribe, MqttSubscribe] else [])"
    by (simp add: st2_def)
  from wait_loop_prefix [of "mqtt_deliveries e" st2] obtain k where
    k: "trace (wait_loop (mqtt_deliveries e) st2) = trace st2 @ replicate k MqttLoop"
    by auto
  have a: "acquire e st =
     (if wifi_connects e then (if mqtt_connects e then wait_loop (mqtt_deliveries e) st2 else st2)
      else st1)"
    by (simp add: acquire_cases st1_def st2_def Let_def)
  show ?thesis by (simp add: a k t1 t2)
qed

lemma setup_cycle_trace:
  "\<exists>r post. setup_cycle powf strtof e st = Some r \<and>
     trace (final r) =
       [PowerDisplay, ReadBattery, WifiConnect] @ (if wifi_connects e then [TimeSync] else []) @
         ResetIncoming # post"
proof -
  define vbat where "vbat = readBatteryVoltage (analog_raw e)"
  from batteryPercent_total [of vbat] obtain pct where
    pct: "batteryPercentFromVoltage vbat = Some pct" by blast
  define st0 where "st0 = (log_event ReadBattery (log_event PowerDisplay (st\<lparr>trace := []\<rparr>)))
      \<lparr>lastBatteryVoltage := vbat, lastBatteryPercent := pct\<rparr>"
  have t0: "trace st0 = [PowerDisplay, ReadBattery]" by (simp add: st0_def log_event_def)
  from acquire_trace [of e st0] obtain post where post: "trace (acquire e st0) =
     trace st0 @ WifiConnect # (if wifi_connects e then [TimeSync] else []) @ ResetIncoming # post"
    by blast
  show ?thesis
    by (simp add: setup_cycle_def Let_def vbat_def [symmetric] pct st0_def [symmetric] post t0)
qed

lemma reset_precedes_prefix:
  assumes "ResetIncoming \<notin> set pre"
  shows "reset_precedes kind (pre @ ResetIncoming # post) = (\<not> list_ex kind pre)"
proof -
  have "takeWhile (\<lambda>ev. ev \<noteq> ResetIncoming) (pre @ ResetIncoming # post) = pre"
    using assms by (induction pre) auto
  then show ?thesis by (simp add: reset_precedes_def)
qed

text \<open>The battery fields of the retained state: only lines 324 and 325 write them.\<close>

lemma log_event_battery [simp]:
  "lastBatteryVoltage (log_event ev st) = lastBatteryVoltage st"
  "lastBatteryPercent (log_event ev st) = lastBatteryPercent st"
  by (simp_all add: log_event_def)

lemma deliver_battery [simp]:
  "lastBatteryVoltage (deliver st m) = lastBatteryVoltage st"
  "lastBatteryPercent (deliver st m) = lastBatteryPercent st"
  by (simp_all add: deliver_def mqttCallback_def)

lemma foldl_deliver_battery [simp]:
  "lastBatteryVoltage (foldl deliver st ms) = lastBatteryVoltage st"
  "lastBatteryPercent (foldl deliver st ms) = lastBatteryPercent st"
  by (induction ms arbitrary: st) simp_all

lemma wait_loop_battery [simp]:
  "lastBatteryVoltage (wait_loop ds st) = lastBatteryVoltage st"
  "lastBatteryPercent (wait_loop ds st) = lastBatteryPercent st"
  by (induction ds arbitrary: st) (simp_all add: Let_def)

lemma reset_incoming_battery [simp]:
  "lastBatteryVoltage (reset_incoming st) = lastBatteryVoltage st"
  "lastBatteryPercent (reset_incoming st) = lastBatteryPercent st"
  by (simp_all add: reset_incoming_def Let_def)

lemma connectMQTT_battery [simp]:
  "lastBatteryVoltage (snd (connectMQTT e st)) = lastBatteryVoltage st"
  "lastBatteryPercent (snd (connectMQTT e st)) = lastBatteryPercent st"
  by (simp_all add: connectMQTT_def Let_def)

lemma acquire_battery [simp]:
  "lastBatteryVoltage (acquire e st) = lastBatteryVoltage st"
  "lastBatteryPercent (acquire e st) = lastBatteryPercent st"
  by (simp_all add: acquire_cases Let_def)

lemma persist_battery [simp]:
  "lastBatteryVoltage (persist st) = lastBatteryVoltage st"
  "lastBatteryPercent (persist st) = lastBatteryPercent st"
  by (simp_all add: persist_def Let_def)

lemma shutdown_battery [simp]:
  "lastBatteryVoltage (shutdown e st) = lastBatteryVoltage st"
  "lastBatteryPercent (shutdown e st) = lastBatteryPercent st"
  by (simp_all add: shutdown_def Let_def)

text \<open>Lines 322 to 325: every cycle stores its battery measurement in the retained state.\<close>

lemma setup_cycle_battery:
  assumes "setup_cycle powf strtof e st = Some r"
  shows "lastBatteryVoltage (final r) = readBatteryVoltage (analog_raw e) \<and>
    batteryPercentFromVoltage (readBatteryVoltage (analog_raw e)) = Some (lastBatteryPercent (final r)) \<and>
    shown_vbat r = lastBatteryVoltage (final r) \<and> shown_pct r = lastBatteryPercent (final r)"
proof -
  from batteryPercent_total [of "readBatteryVoltage (analog_raw e)"] obtain pct where
    pct: "batteryPercentFromVoltage (readBatteryVoltage (analog_raw e)) = Some pct" by blast
  from assms show ?thesis
    unfolding setup_cycle_def Let_def pct by auto
qed

lemma adc_ratio: "rnd (3000 / 4095) = Fin (12291001 / 16777216)"
  by (rule rnd_eval [where e = "- 1" and m = 12291001]) simp_all

lemma rnd_33_tenths: "rnd (33 / 10) = Fin (13841203 / 4194304)"
  by (rule rnd_eval [where e = 1 and m = 13841203]) simp_all

lemma rnd_49_tenths: "rnd (49 / 10) = Fin (10276045 / 2097152)"
  by (rule rnd_eval [where e = 2 and m = 10276045]) simp_all

lemma adc_volts: "rnd (12291001 / 16777216 * (13841203 / 4194304)) = Fin (2535019 / 1048576)"
  by (rule rnd_eval [where e = 1 and m = 10140076]) simp_all

lemma batt_volts: "rnd (2535019 / 1048576 * (10276045 / 2097152)) = Fin (12421593 / 1048576)"
  by (rule rnd_eval [where e = 3 and m = 12421593]) simp_all

lemma readBatteryVoltage_3000: "readBatteryVoltage 3000 = Fin (12421593 / 1048576)"
proof -
  have i: "f32_of_int 3000 = Fin 3000"
    using rnd_of_int [of 3000] by (simp add: f32_of_int_def)
  have a: "fdiv (f32_of_int 3000) (Fin 4095) = Fin (12291001 / 16777216)"
    using adc_ratio by (simp add: i)
  have b: "fmul (Fin (12291001 / 16777216)) (Fin (13841203 / 4194304)) = Fin (2535019 / 1048576)"
    using adc_volts by simp
  have c: "fmul (Fin (2535019 / 1048576)) (Fin (10276045 / 2097152)) = Fin (12421593 / 1048576)"
    using batt_volts by simp
  show ?thesis
    unfolding readBatteryVoltage_def Let_def rnd_33_tenths rnd_49_tenths a b c ..
qed

lemma battery_3000: "batteryPercentFromVoltage (Fin (12421593 / 1048576)) = Some 100"
  by (rule batteryPercent_high) (simp add: voltTable_values fge_def)

subsection \<open>The claims about a cycle\<close>


lemma power_on_lengths:
  "length (lastPriceUsd power_on) = 16" "length (lastBalanceBtc power_on) = 16"
  "length (priceUsdBuf power_on) = 16" "length (balanceBtcBuf power_on) = 16"
  by (simp_all add: power_on_def)

lemma power_on_sentinels:
  "c_str (lastPriceUsd power_on) = ''--''" "c_str (lastBalanceBtc power_on) = ''--''"
  by (simp_all add: power_on_def c_str_def NUL_def)


lemma env_silent_delivers:
  "\<not> delivers env_silent TOPIC_BALANCE_BTC" "\<not> delivers env_silent TOPIC_PRICE_USD"
  by (simp_all add: delivers_def topic_messages_def payloads_def env_silent_def)


text \<open>
  C8, as amended. A value that was not received is parsed from the retained text. When
  neither topic delivers and both retained texts hold the sentinel \<open>--\<close>, in which
  \<^verbatim>\<open>strtof\<close> finds no number, the price and the balance are 0, the duration is 0 years,
  0 months and 0 weeks, and the two retained texts stay as they are. The two battery fields
  of the retained state do not stay as they are: in every cycle they become the voltage
  read in that cycle and its percentage, which lies between 0 and 100.
\<close>

theorem unreceived_values_fall_back:
  assumes "length (lastPriceUsd st) = 16" "length (lastBalanceBtc st) = 16"
    "length (priceUsdBuf st) = 16" "length (balanceBtcBuf st) = 16"
  shows "\<exists>r. setup_cycle powf strtof e st = Some r \<and>
    gotPrice (final r) = delivers e TOPIC_PRICE_USD \<and>
    gotBalance (final r) = delivers e TOPIC_BALANCE_BTC \<and>
    (\<not> gotPrice (final r) \<longrightarrow>
       priceUsd r = parseFloatSafe strtof (Some (c_str (lastPriceUsd st)))) \<and>
    (\<not> gotBalance (final r) \<longrightarrow>
       balanceBtc r = parseFloatSafe strtof (Some (c_str (lastBalanceBtc st)))) \<and>
    (\<not> delivers e TOPIC_PRICE_USD \<and> \<not> delivers e TOPIC_BALANCE_BTC \<and>
     c_str (lastPriceUsd st) = ''--'' \<and> c_str (lastBalanceBtc st) = ''--'' \<and>
     snd (strtof ''--'') = 0 \<longrightarrow>
       priceUsd r = Fin 0 \<and> balanceBtc r = Fin 0 \<and>
       shown r = \<lparr>outYears = 0, outMonths = 0, outWeeks = 0\<rparr> \<and>
       lastPriceUsd (final r) = lastPriceUsd st \<and> lastBalanceBtc (final r) = lastBalanceBtc st) \<and>
    lastBatteryVoltage (final r) = readBatteryVoltage (analog_raw e) \<and>
    batteryPercentFromVoltage (readBatteryVoltage (analog_raw e)) =
      Some (lastBatteryPercent (final r)) \<and>
    0 \<le> lastBatteryPercent (final r) \<and> lastBatteryPercent (final r) \<le> 100"
proof -
  from setup_cycle_result [OF assms, of powf strtof e] obtain r where
    r: "setup_cycle powf strtof e st = Some r"
    "gotPrice (final r) = delivers e TOPIC_PRICE_USD"
    "gotBalance (final r) = delivers e TOPIC_BALANCE_BTC"
    "if delivers e TOPIC_PRICE_USD
     then c_str (lastPriceUsd (final r)) = c_str (priceUsdBuf (final r)) \<and>
          priceUsd r = parseFloatSafe strtof (Some (c_str (priceUsdBuf (final r))))
     else lastPriceUsd (final r) = lastPriceUsd st \<and>
          priceUsd r = parseFloatSafe strtof (Some (c_str (lastPriceUsd st)))"
    "if delivers e TOPIC_BALANCE_BTC
     then c_str (lastBalanceBtc (final r)) = c_str (balanceBtcBuf (final r)) \<and>
          balanceBtc r = parseFloatSafe strtof (Some (c_str (balanceBtcBuf (final r))))
     else lastBalanceBtc (final r) = lastBalanceBtc st \<and>
          balanceBtc r = parseFloatSafe strtof (Some (c_str (lastBalanceBtc st)))"
    "shown r = computeLongevityWithInflation powf (fmul (balanceBtc r) (priceUsd r))
                MONTHLY_EXP_USD INFLATION_ANNUAL"
    by blast
  have sentinel: "parseFloatSafe strtof (Some ''--'') = Fin 0" if "snd (strtof ''--'') = 0"
    using that by (cases "strtof ''--''") (simp add: parseFloatSafe_def)
  have zero: "computeLongevityWithInflation powf (fmul (Fin 0) (Fin 0)) MONTHLY_EXP_USD
      INFLATION_ANNUAL = \<lparr>outYears = 0, outMonths = 0, outWeeks = 0\<rparr>"
    by (simp add: computeLongevityWithInflation_def computeLongevity_run_def rnd_def)
  note bat = setup_cycle_battery [OF r(1)]
  from bat batteryPercent_total [of "readBatteryVoltage (analog_raw e)"]
  have rng: "0 \<le> lastBatteryPercent (final r)" "lastBatteryPercent (final r) \<le> 100"
    by auto
  show ?thesis
    by (rule exI [where x = r]) (use r sentinel zero bat rng in \<open>auto split: if_splits\<close>)
qed

theorem unreceived_values_fall_back_witness:
  "length (lastPriceUsd power_on) = 16 \<and> length (lastBalanceBtc power_on) = 16 \<and>
   length (priceUsdBuf power_on) = 16 \<and> length (balanceBtcBuf power_on) = 16 \<and>
   \<not> delivers env_silent TOPIC_PRICE_USD \<and> \<not> delivers env_silent TOPIC_BALANCE_BTC \<and>
   c_str (lastPriceUsd power_on) = ''--'' \<and> c_str (lastBalanceBtc power_on) = ''--'' \<and>
   snd (strtof_c ''--'') = 0 \<and>
   (\<exists>r. setup_cycle powf_unit_base strtof_c env_silent power_on = Some r \<and>
      \<not> gotPrice (final r) \<and> \<not> gotBalance (final r) \<and>
      priceUsd r = Fin 0 \<and> balanceBtc r = Fin 0 \<and>
      shown r = \<lparr>outYears = 0, outMonths = 0, outWeeks = 0\<rparr> \<and>
      lastPriceUsd (final r) = lastPriceUsd power_on \<and>
      lastBalanceBtc (final r) = lastBalanceBtc power_on \<and>
      lastBatteryVoltage (final r) = Fin (12421593 / 1048576) \<and>
      lastBatteryPercent (final r) = 100)"
proof -
  have raw: "analog_raw env_silent = 3000" by (simp add: env_silent_def)
  from unreceived_values_fall_back [OF power_on_lengths, of powf_unit_base strtof_c env_silent]
  have "\<exists>r. setup_cycle powf_unit_base strtof_c env_silent power_on = Some r \<and>
      \<not> gotPrice (final r) \<and> \<not> gotBalance (final r) \<and>
      priceUsd r = Fin 0 \<and> balanceBtc r = Fin 0 \<and>
      shown r = \<lparr>outYears = 0, outMonths = 0, outWeeks = 0\<rparr> \<and>
      lastPriceUsd (final r) = lastPriceUsd power_on \<and>
      lastBalanceBtc (final r) = lastBalanceBtc power_on \<and>
      lastBatteryVoltage (final r) = Fin (12421593 / 1048576) \<and>
      lastBatteryPercent (final r) = 100"
    unfolding raw readBatteryVoltage_3000 battery_3000
    by (auto simp add: env_silent_delivers power_on_sentinels strtof_c_sentinel)
  then show ?thesis
    by (simp add: power_on_lengths env_silent_delivers power_on_sentinels strtof_c_sentinel)
qed

text \<open>
  C8 as stated, with the whole retained state left at its sentinels, fails. In the silent
  cycle from the first power-on, with the raw battery sample 3000, the retained texts
  stay \<open>--\<close>, but the retained voltage goes from 0.0 to about 11.846 and the retained
  percentage from -1 to 100: lines 324 and 325 store the measurement in every cycle.
\<close>

theorem retained_battery_overwritten:
  "\<not> delivers env_silent TOPIC_PRICE_USD \<and> \<not> delivers env_silent TOPIC_BALANCE_BTC \<and>
   c_str (lastPriceUsd power_on) = ''--'' \<and> c_str (lastBalanceBtc power_on) = ''--'' \<and>
   lastBatteryVoltage power_on = Fin 0 \<and> lastBatteryPercent power_on = - 1 \<and>
   (\<exists>r. setup_cycle powf_unit_base strtof_c env_silent power_on = Some r \<and>
      lastBatteryVoltage (final r) = Fin (12421593 / 1048576) \<and>
      lastBatteryPercent (final r) = 100 \<and>
      lastBatteryVoltage (final r) \<noteq> lastBatteryVoltage power_on \<and>
      lastBatteryPercent (final r) \<noteq> lastBatteryPercent power_on)"
proof -
  have raw: "analog_raw env_silent = 3000" by (simp add: env_silent_def)
  from setup_cycle_result [OF power_on_lengths, of powf_unit_base strtof_c env_silent]
  obtain r where r: "setup_cycle powf_unit_base strtof_c env_silent power_on = Some r"
    by blast
  from setup_cycle_battery [OF r]
  have "lastBatteryVoltage (final r) = Fin (12421593 / 1048576)" "lastBatteryPercent (final r) = 100"
    unfolding raw readBatteryVoltage_3000 battery_3000 by simp_all
  moreover have "lastBatteryVoltage power_on = Fin 0" "lastBatteryPercent power_on = - 1"
    by (simp_all add: power_on_def)
  ultimately show ?thesis
    using r by (simp add: env_silent_delivers power_on_sentinels)
qed

text \<open>
  C9, as amended. In every cycle the reset of the flags and buffers comes before every
  operation of the MQTT client, the only operations that can run the callback; it leaves
  both flags unset and both buffers holding the empty string.
\<close>

theorem reset_precedes_mqtt:
  "(\<exists>r. setup_cycle powf strtof e st = Some r \<and> reset_precedes is_mqtt_op (trace (final r))) \<and>
   \<not> gotPrice (reset_incoming s) \<and> \<not> gotBalance (reset_incoming s) \<and>
   c_str (priceUsdBuf (reset_incoming s)) = [] \<and> c_str (balanceBtcBuf (reset_incoming s)) = []"
proof -
  from setup_cycle_trace [of powf strtof e st] obtain r post where
    r: "setup_cycle powf strtof e st = Some r"
    "trace (final r) =
       ([PowerDisplay, ReadBattery, WifiConnect] @ (if wifi_connects e then [TimeSync] else [])) @
         ResetIncoming # post"
    by auto
  have "reset_precedes is_mqtt_op (trace (final r))"
    unfolding r(2) by (subst reset_precedes_prefix) simp_all
  moreover have "c_str (buf[0 := NUL]) = []" for buf
    by (cases buf) (simp_all add: c_str_def)
  ultimately show ?thesis using r(1) by simp
qed

text \<open>
  C9 as stated, with the reset before any network operation, fails: the WiFi connection
  (and the time synchronisation) come first.
\<close>

theorem reset_after_wifi:
  "map_option (\<lambda>r. reset_precedes is_network_op (trace (final r)))
     (setup_cycle powf_unit_base strtof_c env_balance_only power_on) = Some False"
proof -
  from setup_cycle_trace [of powf_unit_base strtof_c env_balance_only power_on] obtain r post where
    r: "setup_cycle powf_unit_base strtof_c env_balance_only power_on = Some r"
    "trace (final r) =
       ([PowerDisplay, ReadBattery, WifiConnect] @
        (if wifi_connects env_balance_only then [TimeSync] else [])) @ ResetIncoming # post"
    by auto
  have "\<not> reset_precedes is_network_op (trace (final r))"
    unfolding r(2) by (subst reset_precedes_prefix) simp_all
  then show ?thesis by (simp add: r(1))
qed

end
